theory Spec2Isabelle
  imports Complex_Main "HOL-Library.Word" "HOL-Library.Char_ord" "HOL-Library.List_Lexorder"
    "HOL-Library.Product_Lexorder"
begin

section \<open>OBIVox NLM core: data model\<close>

text \<open>
  The embedding follows \<^verbatim>\<open>include/obivox/nlm_framwork.h\<close> and
  \<^verbatim>\<open>src/core/nlm_core.c\<close>.

  Conventions.
  \<^item> A C \<^verbatim>\<open>float\<close> is a \<^typ>\<open>real\<close>; a float literal such as \<^verbatim>\<open>0.954f\<close> is its
    decimal value. Samples and fields are finite numbers. The one place where the code
    produces a NaN from finite data (the division \<open>0/0\<close> of the detector when
    \<^verbatim>\<open>num_samples\<close> is 0) is written out with an \<open>option\<close>.
  \<^item> \<^verbatim>\<open>uint32_t\<close> parameters are \<^typ>\<open>32 word\<close>, \<^verbatim>\<open>uint8_t\<close> is \<^typ>\<open>8 word\<close>; loop
    counters are naturals below \<open>2 ^ 32\<close> with the wrap-around written out where the
    code can wrap.
  \<^item> A pointer parameter is an \<open>option\<close>: \<open>None\<close> is \<^verbatim>\<open>NULL\<close>, \<open>Some v\<close> points to
    a cell holding \<open>v\<close>. An audio buffer is the list of the samples it really holds;
    \<^verbatim>\<open>num_samples\<close> is passed separately, as in C.
  \<^item> A function returns \<open>Inr\<close> of the cells it has written where the C function
    returns a non-negative code, and \<open>Inl\<close> of an error otherwise.
\<close>

datatype error =
    InvalidArgument  \<comment> \<open>the C function returns \<^verbatim>\<open>-1\<close>\<close>
  | OutOfBounds      \<comment> \<open>undefined behaviour: an access outside the audio buffer\<close>

record NLMCoordinate =
  x_axis :: real
  y_axis :: real
  z_axis :: real
  confidence :: real

record PhoneticAccessibility =
  lisp_mitigation :: bool
  stutter_detection :: bool
  accent_normalization :: bool
  variation_tolerance :: real
  phenomenological_integrity :: real
  experiential_authenticity :: real

datatype TreeMode = TREE_MODE_AVL | TREE_MODE_RB | TREE_MODE_HYBRID

datatype Codec = CODEC_WHISPER | CODEC_COQUI | CODEC_VOSK | CODEC_ADAPTIVE

record OBIVoxNLMSystem =
  current_position :: NLMCoordinate
  accessibility :: PhoneticAccessibility
  current_tree_mode :: TreeMode
  active_codec :: Codec
  last_confidence :: real
  drift_magnitude :: real
  coherence_threshold :: real
  fault_tolerance_enabled :: bool
  recovery_attempts :: "8 word"

record HumanFeedback =
  requires_confirmation :: bool
  confidence_threshold :: real
  suggested_correction :: "string option"
  original_interpretation :: "string option"

text \<open>
  \<^verbatim>\<open>AudioFeatures\<close>: the two \<^verbatim>\<open>float[256]\<close> arrays are functions from the index, of
  which the code reads the indices below 256.
\<close>

record AudioFeatures =
  pitch_contour :: "nat \<Rightarrow> real"
  energy_envelope :: "nat \<Rightarrow> real"
  has_lisp :: bool
  has_stutter :: bool
  has_accent :: bool
  variation_score :: real

section \<open>Initialisation\<close>

text \<open>
  \<^verbatim>\<open>obivox_nlm_init\<close> when \<^verbatim>\<open>calloc\<close> succeeds: every field is zero except the
  ones assigned. (\<^verbatim>\<open>CODEC_ADAPTIVE\<close>, fault tolerance on, no recovery attempt.)
\<close>

definition obivox_nlm_init :: OBIVoxNLMSystem where
  "obivox_nlm_init =
     \<lparr> current_position =
         \<lparr> x_axis = 0, y_axis = 0, z_axis = 0.5, confidence = 0.954 \<rparr>,
       accessibility =
         \<lparr> lisp_mitigation = True, stutter_detection = True,
           accent_normalization = False, variation_tolerance = 0.7,
           phenomenological_integrity = 0.95, experiential_authenticity = 0.95 \<rparr>,
       current_tree_mode = TREE_MODE_HYBRID,
       active_codec = CODEC_ADAPTIVE,
       last_confidence = 0,
       drift_magnitude = 0,
       coherence_threshold = 0.954,
       fault_tolerance_enabled = True,
       recovery_attempts = 0 \<rparr>"

section \<open>Drift handling\<close>

text \<open>
  \<^verbatim>\<open>obivox_handle_drift(system, drift_detected, should_cascade)\<close>. The result is the
  updated system and the value left in \<^verbatim>\<open>*should_cascade\<close>. The
  \<^verbatim>\<open>HumanFeedback\<close> record built in the human-stress branch is a local that is
  dropped at the end of the branch.
\<close>

definition failure_magnitude :: "real \<Rightarrow> real" where
  "failure_magnitude drift_detected = drift_detected * 24 - 12"

definition obivox_handle_drift ::
  "OBIVoxNLMSystem option \<Rightarrow> real \<Rightarrow> bool option \<Rightarrow> error + (OBIVoxNLMSystem \<times> bool)" where
  "obivox_handle_drift system drift_detected should_cascade =
     (case (system, should_cascade) of
        (Some sys, Some _) \<Rightarrow>
          (if failure_magnitude drift_detected < - 3 then
             Inr (sys\<lparr> current_tree_mode := TREE_MODE_RB,
                       coherence_threshold := 0.85,
                       drift_magnitude := drift_detected \<rparr>, True)
           else if failure_magnitude drift_detected > 3 then
             Inr (sys\<lparr> current_tree_mode := TREE_MODE_AVL,
                       drift_magnitude := drift_detected \<rparr>, False)
           else
             Inr (sys\<lparr> current_tree_mode := TREE_MODE_HYBRID,
                       coherence_threshold := 0.954,
                       drift_magnitude := drift_detected \<rparr>, False))
      | _ \<Rightarrow> Inl InvalidArgument)"

text \<open>
  The code keeps no zone variable: the zone of a cycle is the branch that
  \<^verbatim>\<open>obivox_handle_drift\<close> takes, which it records in the tree mode (Relaxed for the AI
  stress zone, Strict for the human stress zone, Hybrid for the green zone).
\<close>

datatype FailureZone = GREEN | AI_STRESS | HUMAN_STRESS

fun zone_of_mode :: "TreeMode \<Rightarrow> FailureZone" where
  "zone_of_mode TREE_MODE_RB = AI_STRESS"
| "zone_of_mode TREE_MODE_AVL = HUMAN_STRESS"
| "zone_of_mode TREE_MODE_HYBRID = GREEN"

definition system_zone :: "OBIVoxNLMSystem \<Rightarrow> FailureZone" where
  "system_zone sys = zone_of_mode (current_tree_mode sys)"

text \<open>The zone in which a drift-handling cycle with the given drift leaves the system.\<close>

definition drift_zone :: "OBIVoxNLMSystem \<Rightarrow> real \<Rightarrow> FailureZone option" where
  "drift_zone sys drift_detected =
     (case obivox_handle_drift (Some sys) drift_detected (Some False) of
        Inr (sys', _) \<Rightarrow> Some (system_zone sys')
      | Inl _ \<Rightarrow> None)"

text \<open>
  The drift check that opens \<^verbatim>\<open>obivox_bidirectional_convert\<close> (the block before
  the conversion itself). The return code of \<^verbatim>\<open>obivox_handle_drift\<close> is ignored
  there; \<^verbatim>\<open>should_cascade\<close> starts as \<^verbatim>\<open>false\<close>.
\<close>

definition obivox_bidirectional_convert_drift_check :: "OBIVoxNLMSystem \<Rightarrow> OBIVoxNLMSystem" where
  "obivox_bidirectional_convert_drift_check system =
     (if drift_magnitude system > 0.3 then
        (case obivox_handle_drift (Some system) (drift_magnitude system) (Some False) of
           Inr (sys, should_cascade) \<Rightarrow>
             (if should_cascade \<and> recovery_attempts sys < 3 then
                sys\<lparr> recovery_attempts := recovery_attempts sys + 1,
                     fault_tolerance_enabled := True \<rparr>
              else sys)
         | Inl _ \<Rightarrow> system)
      else system)"

text \<open>
  A fresh system to which a drift of 0.35 has been reported (inside the AI stress zone
  and above the 0.3 trigger of the converter), and the system after \<open>n\<close> conversion
  cycles that follow, with no feedback incorporated in between.
\<close>

definition drift_reported :: OBIVoxNLMSystem where
  "drift_reported =
     (case obivox_handle_drift (Some obivox_nlm_init) 0.35 (Some False) of
        Inr (sys, _) \<Rightarrow> sys
      | Inl _ \<Rightarrow> obivox_nlm_init)"

definition ai_stress_cycles :: "nat \<Rightarrow> OBIVoxNLMSystem" where
  "ai_stress_cycles n = (obivox_bidirectional_convert_drift_check ^^ n) drift_reported"

section \<open>Coordinate mapping\<close>

text \<open>
  \<^verbatim>\<open>obivox_map_to_nlm_space(features, coordinates)\<close>: the two loops over the 256 bins,
  then the four assignments to \<^verbatim>\<open>*coordinates\<close>. \<^verbatim>\<open>tanhf\<close> is \<^const>\<open>tanh\<close>.
\<close>

definition pitch_variance :: "(nat \<Rightarrow> real) \<Rightarrow> real" where
  "pitch_variance contour =
     fold (\<lambda>i acc. acc + (contour i - contour (i - 1)) * (contour i - contour (i - 1)))
       [1..<256] 0 / 256"

definition energy_mean :: "(nat \<Rightarrow> real) \<Rightarrow> real" where
  "energy_mean envelope = fold (\<lambda>i acc. acc + envelope i) [0..<256] 0 / 256"

definition obivox_map_to_nlm_space ::
  "AudioFeatures option \<Rightarrow> NLMCoordinate option \<Rightarrow> error + NLMCoordinate" where
  "obivox_map_to_nlm_space features coordinates =
     (case (features, coordinates) of
        (Some ft, Some c) \<Rightarrow>
          Inr (c\<lparr> x_axis := 1 - 2 * tanh (pitch_variance (pitch_contour ft)),
                  y_axis := tanh (energy_mean (energy_envelope ft) * 2),
                  z_axis := variation_score ft,
                  confidence := 0.954 * (1 - variation_score ft * 0.1) \<rparr>)
      | _ \<Rightarrow> Inl InvalidArgument)"

text \<open>A feature set with flat contours and variation score 0.\<close>

definition flat_features :: AudioFeatures where
  "flat_features =
     \<lparr> pitch_contour = (\<lambda>_. 0), energy_envelope = (\<lambda>_. 0), has_lisp = False,
       has_stutter = False, has_accent = False, variation_score = 0 \<rparr>"

section \<open>Human in the loop\<close>

text \<open>
  \<^verbatim>\<open>obivox_request_human_validation(transcription, confidence, feedback)\<close>: the result
  is the feedback record and the return code (1 when confirmation is required).
  \<^verbatim>\<open>calloc\<close> and \<^verbatim>\<open>strdup\<close> are taken to succeed: the suggested correction is a
  fresh zeroed buffer, that is the empty string.
\<close>

definition obivox_request_human_validation ::
  "string option \<Rightarrow> real \<Rightarrow> HumanFeedback option \<Rightarrow> error + (HumanFeedback \<times> int)" where
  "obivox_request_human_validation transcription conf feedback =
     (case (transcription, feedback) of
        (Some t, Some fb) \<Rightarrow>
          Inr (fb\<lparr> requires_confirmation := (conf < 0.85),
                   confidence_threshold := 0.954,
                   suggested_correction := Some [],
                   original_interpretation := Some t \<rparr>,
               if conf < 0.85 then 1 else 0)
      | _ \<Rightarrow> Inl InvalidArgument)"

text \<open>
  \<^verbatim>\<open>obivox_incorporate_feedback(system, feedback)\<close>. A correction is supplied when the
  pointer \<^verbatim>\<open>suggested_correction\<close> is not \<^verbatim>\<open>NULL\<close>.
\<close>

definition obivox_incorporate_feedback ::
  "OBIVoxNLMSystem option \<Rightarrow> HumanFeedback option \<Rightarrow> error + OBIVoxNLMSystem" where
  "obivox_incorporate_feedback system feedback =
     (case (system, feedback) of
        (Some sys, Some fb) \<Rightarrow>
          (let pos = current_position sys;
               pos' =
                 (if suggested_correction fb \<noteq> None then
                    (let y = y_axis pos + 0.1;
                         y' = (if y > 1 then 1 else y);
                         z = z_axis pos + 0.05;
                         z' = (if z > 1 then 1 else z)
                     in pos\<lparr> y_axis := y', z_axis := z' \<rparr>)
                  else pos)
           in Inr (sys\<lparr> current_position := pos',
                        drift_magnitude := 0,
                        recovery_attempts := 0 \<rparr>))
      | _ \<Rightarrow> Inl InvalidArgument)"

section \<open>Speech variation detection and normalisation\<close>

text \<open>
  A read \<^verbatim>\<open>audio[k]\<close>: the sample when \<open>k\<close> is inside the buffer, and nothing when
  the access is out of bounds.
\<close>

definition rd :: "real list \<Rightarrow> nat \<Rightarrow> real option" where
  "rd audio k = (if k < length audio then Some (audio ! k) else None)"

text \<open>The value of an integer expression converted to \<^verbatim>\<open>uint32_t\<close>.\<close>

definition u32 :: "int \<Rightarrow> nat" where
  "u32 k = nat (k mod 2 ^ 32)"

subsection \<open>\<^verbatim>\<open>obivox_detect_speech_variations\<close>\<close>

text \<open>
  The zero-crossing loop \<^verbatim>\<open>for (i = 1; i < num_samples; i++)\<close>. The counter cannot
  wrap: \<open>i < num_samples < 2 ^ 32\<close>.
\<close>

function zcr_loop :: "real list \<Rightarrow> nat \<Rightarrow> nat \<Rightarrow> real \<Rightarrow> error + real" where
  "zcr_loop audio num_samples i zcr =
     (if i < num_samples then
        (case (rd audio i, rd audio (i - 1)) of
           (Some a, Some b) \<Rightarrow>
             zcr_loop audio num_samples (i + 1) (if (a > 0) \<noteq> (b > 0) then zcr + 1 else zcr)
         | _ \<Rightarrow> Inl OutOfBounds)
      else Inr zcr)"
  by pat_completeness auto
termination
  by (relation "measure (\<lambda>(audio, num_samples, i, zcr). num_samples - i)") auto

declare zcr_loop.simps [simp del]

text \<open>
  The inner loop of the stutter detection, \<^verbatim>\<open>for (j = 0; j < window_size; j++)\<close> with
  \<^verbatim>\<open>window_size = 1024\<close>: the indices \<^verbatim>\<open>i+j\<close> and \<^verbatim>\<open>i-window_size+j\<close> are computed
  in \<^verbatim>\<open>uint32_t\<close>.
\<close>

function correlation_loop :: "real list \<Rightarrow> nat \<Rightarrow> nat \<Rightarrow> real \<Rightarrow> real option" where
  "correlation_loop audio i j correlation =
     (if j < 1024 then
        (case (rd audio (u32 (int i + int j)), rd audio (u32 (int i - 1024 + int j))) of
           (Some a, Some b) \<Rightarrow> correlation_loop audio i (j + 1) (correlation + a * b)
         | _ \<Rightarrow> None)
      else Some correlation)"
  by pat_completeness auto
termination
  by (relation "measure (\<lambda>(audio, i, j, correlation). 1024 - j)") auto

declare correlation_loop.simps [simp del]

text \<open>
  The outer loop
  \<^verbatim>\<open>for (uint32_t i = window_size; i < num_samples - window_size; i += window_size/2)\<close>.
  The bound is computed in \<^verbatim>\<open>uint32_t\<close> and the step can wrap, so the loop need not
  end: \<open>None\<close> is a run that does not return.
\<close>

partial_function (option) repetition_loop ::
  "real list \<Rightarrow> nat \<Rightarrow> nat \<Rightarrow> real \<Rightarrow> (error + real) option" where
  "repetition_loop audio bound i repetition_score =
     (if i < bound then
        (case correlation_loop audio i 0 0 of
           None \<Rightarrow> Some (Inl OutOfBounds)
         | Some correlation \<Rightarrow>
             repetition_loop audio bound (u32 (int i + 512))
               (if correlation > 0.8 then repetition_score + 1 else repetition_score))
      else Some (Inr repetition_score))"

text \<open>
  The function itself. The result holds the accessibility record and the value
  written to \<^verbatim>\<open>*variation_score\<close>, which is \<open>None\<close> when it is a NaN (from the
  division \<open>0/0\<close> when \<^verbatim>\<open>num_samples\<close> is 0; a comparison with a NaN is false).
\<close>

definition obivox_detect_speech_variations ::
  "real list option \<Rightarrow> 32 word \<Rightarrow> PhoneticAccessibility option \<Rightarrow> real option \<Rightarrow>
     (error + (PhoneticAccessibility \<times> real option)) option" where
  "obivox_detect_speech_variations audio num_samples accessibility_p variation_score_p =
     (case (audio, accessibility_p, variation_score_p) of
        (Some a, Some acc, Some _) \<Rightarrow>
          (case zcr_loop a (unat num_samples) 1 0 of
             Inl e \<Rightarrow> Some (Inl e)
           | Inr crossings \<Rightarrow>
               (let zero_crossing_rate =
                      (if unat num_samples = 0 then None
                       else Some (crossings / real (unat num_samples)));
                    acc1 =
                      (if (case zero_crossing_rate of Some r \<Rightarrow> r > 0.4 | None \<Rightarrow> False)
                       then acc\<lparr> lisp_mitigation := True \<rparr> else acc)
                in case repetition_loop a (u32 (int (unat num_samples) - 1024)) 1024 0 of
                     None \<Rightarrow> None
                   | Some (Inl e) \<Rightarrow> Some (Inl e)
                   | Some (Inr repetition_score) \<Rightarrow>
                       (let acc2 =
                              (if repetition_score > 3
                               then acc1\<lparr> stutter_detection := True \<rparr> else acc1);
                            score =
                              (case zero_crossing_rate of
                                 None \<Rightarrow> None
                               | Some r \<Rightarrow>
                                   Some (r * 0.3 + repetition_score * 0.1 +
                                         variation_tolerance acc2 * 0.6));
                            acc3 =
                              (if (case score of Some v \<Rightarrow> v > 0.5 | None \<Rightarrow> False) \<and>
                                  phenomenological_integrity acc2 > 0.9
                               then acc2\<lparr> accent_normalization := False \<rparr> else acc2)
                        in Some (Inr (acc3, score)))))
      | _ \<Rightarrow> Some (Inl InvalidArgument))"

subsection \<open>\<^verbatim>\<open>obivox_apply_phonetic_normalization\<close>\<close>

text \<open>
  The lisp pass \<^verbatim>\<open>for (i = 0; i < num_samples; i++)\<close>, in place: \<^verbatim>\<open>audio[i-1]\<close> is the
  sample already adjusted.
\<close>

function lisp_loop :: "real list \<Rightarrow> nat \<Rightarrow> nat \<Rightarrow> real \<Rightarrow> error + real list" where
  "lisp_loop audio num_samples i preservation_factor =
     (if i < num_samples then
        (if i > 0 then
           (case (rd audio i, rd audio (i - 1)) of
              (Some a, Some b) \<Rightarrow>
                lisp_loop (audio[i := a - (a - b) * 0.2 * (1 - preservation_factor)])
                  num_samples (i + 1) preservation_factor
            | _ \<Rightarrow> Inl OutOfBounds)
         else lisp_loop audio num_samples (i + 1) preservation_factor)
      else Inr audio)"
  by pat_completeness auto
termination
  by (relation "measure (\<lambda>(audio, num_samples, i, f). num_samples - i)") auto

declare lisp_loop.simps [simp del]

text \<open>
  The accumulation \<^verbatim>\<open>for (j = -smooth_window/2; j <= smooth_window/2; j++)\<close> of the
  stutter pass, with \<^verbatim>\<open>smooth_window = 512\<close>: 513 reads \<^verbatim>\<open>audio[i + j]\<close>, the index
  computed in \<^verbatim>\<open>uint32_t\<close>.
\<close>

definition window_sum :: "real list \<Rightarrow> nat \<Rightarrow> real option" where
  "window_sum audio i =
     fold (\<lambda>j avg. case (avg, rd audio (u32 (int i + j))) of
                      (Some s, Some v) \<Rightarrow> Some (s + v)
                    | _ \<Rightarrow> None)
       [- 256..256] (Some 0)"

text \<open>
  The stutter pass \<^verbatim>\<open>for (i = smooth_window; i < num_samples - smooth_window; i++)\<close>, in
  place; \<open>bound\<close> is the value of \<^verbatim>\<open>num_samples - smooth_window\<close> in \<^verbatim>\<open>uint32_t\<close>. The
  counter cannot wrap: \<open>i < bound < 2 ^ 32\<close>. The write \<^verbatim>\<open>audio[i]\<close> is to an index that
  the accumulation has read.
\<close>

function smooth_loop :: "real list \<Rightarrow> nat \<Rightarrow> nat \<Rightarrow> real \<Rightarrow> error + real list" where
  "smooth_loop audio bound i preservation_factor =
     (if i < bound then
        (case window_sum audio i of
           Some s \<Rightarrow>
             smooth_loop
               (audio[i := audio ! i * preservation_factor +
                           s / 512 * (1 - preservation_factor)])
               bound (i + 1) preservation_factor
         | None \<Rightarrow> Inl OutOfBounds)
      else Inr audio)"
  by pat_completeness auto
termination
  by (relation "measure (\<lambda>(audio, bound, i, f). bound - i)") auto

declare smooth_loop.simps [simp del]

definition obivox_apply_phonetic_normalization ::
  "real list option \<Rightarrow> 32 word \<Rightarrow> PhoneticAccessibility option \<Rightarrow> real \<Rightarrow> error + real list" where
  "obivox_apply_phonetic_normalization audio num_samples accessibility_p preservation_factor =
     (case (audio, accessibility_p) of
        (Some a, Some acc) \<Rightarrow>
          (case (if lisp_mitigation acc \<and> preservation_factor < 1
                 then lisp_loop a (unat num_samples) 0 preservation_factor
                 else Inr a) of
             Inl e \<Rightarrow> Inl e
           | Inr a1 \<Rightarrow>
               (if stutter_detection acc \<and> preservation_factor < 1
                then smooth_loop a1 (u32 (int (unat num_samples) - 512)) 512 preservation_factor
                else Inr a1))
      | _ \<Rightarrow> Inl InvalidArgument)"

section \<open>Reachable system states\<close>

text \<open>
  The states a system can be in: \<^verbatim>\<open>obivox_nlm_init\<close> creates it, and each function of
  \<^verbatim>\<open>nlm_core.c\<close> that writes to the system, or to the part of it that its caller hands
  over (the converter passes \<^verbatim>\<open>&system->accessibility\<close> to the detector and
  \<^verbatim>\<open>&system->current_position\<close> to the mapper), takes it to the next state when it
  returns normally.
\<close>

inductive reachable :: "OBIVoxNLMSystem \<Rightarrow> bool" where
  init: "reachable obivox_nlm_init"
| handle_drift:
    "reachable sys \<Longrightarrow> obivox_handle_drift (Some sys) drift (Some b) = Inr (sys', cascade) \<Longrightarrow>
     reachable sys'"
| drift_check:
    "reachable sys \<Longrightarrow> reachable (obivox_bidirectional_convert_drift_check sys)"
| detect:
    "reachable sys \<Longrightarrow>
     obivox_detect_speech_variations (Some audio) num_samples (Some (accessibility sys)) (Some v) =
       Some (Inr (acc', score)) \<Longrightarrow>
     reachable (sys\<lparr> accessibility := acc' \<rparr>)"
| map_to_nlm_space:
    "reachable sys \<Longrightarrow>
     obivox_map_to_nlm_space (Some ft) (Some (current_position sys)) = Inr pos \<Longrightarrow>
     reachable (sys\<lparr> current_position := pos \<rparr>)"
| incorporate_feedback:
    "reachable sys \<Longrightarrow> obivox_incorporate_feedback (Some sys) (Some fb) = Inr sys' \<Longrightarrow>
     reachable sys'"

text \<open>
  The stutter pass in the words of the spec (section 4.2), for comparison with
  \<^const>\<open>smooth_loop\<close>: an interior sample, one outside a half-window margin of 256
  samples at each end, becomes \<open>factor * original + (1 - factor) * moving_average_512\<close>,
  the moving average being the mean of the 512-sample window around the sample.
\<close>

definition spec_moving_average_512 :: "real list \<Rightarrow> nat \<Rightarrow> real" where
  "spec_moving_average_512 original k = (\<Sum>j = k - 256..<k + 256. original ! j) / 512"

definition spec_stutter_blend :: "real \<Rightarrow> real list \<Rightarrow> nat \<Rightarrow> real" where
  "spec_stutter_blend factor original k =
     factor * original ! k + (1 - factor) * spec_moving_average_512 original k"

text \<open>
  A buffer of 1025 samples, silent except for one sample of value 1 at index 300, and a
  profile with only the stutter flag set.
\<close>

definition spike_buffer :: "real list" where
  "spike_buffer = map (\<lambda>k. if k = 300 then 1 else 0) [0..<1025]"

definition stutter_only :: PhoneticAccessibility where
  "stutter_only = (accessibility obivox_nlm_init)\<lparr> lisp_mitigation := False \<rparr>"

section \<open>Adaptive discovery tree\<close>

text \<open>
  \<^verbatim>\<open>NLMAtlasNode\<close> of \<^verbatim>\<open>nlm_framwork.h\<close>: the payload of a node. The pointers
  \<^verbatim>\<open>left\<close> and \<^verbatim>\<open>right\<close> are the two subtrees of the tree datatype below
  (\<^verbatim>\<open>NULL\<close> is the empty tree); \<^verbatim>\<open>parent\<close> is a back-reference used for traversal
  only. The \<^verbatim>\<open>int height\<close> cannot overflow on a tree that fits in memory.
\<close>

datatype Color = RED | BLACK

record NLMAtlasNode =
  service :: string
  operation :: string
  x_coord :: "64 word"
  y_coord :: "64 word"
  z_coord :: "64 word"
  mode :: TreeMode
  height :: int
  color :: Color
  dynamic_cost :: real
  confidence_score :: real
  access_frequency :: "64 word"

datatype atlas_tree = Empty | Branch atlas_tree NLMAtlasNode atlas_tree

text \<open>
  Modelled from the spec: the order of the nodes. No comparison function is in the
  sources; section 4.4 says that the tree is keyed by \<open>(service, operation)\<close> and
  ordered secondarily by the geomorphic coordinates. Strings and tuples are compared
  lexicographically.
\<close>

definition node_key :: "NLMAtlasNode \<Rightarrow> string \<times> string \<times> 64 word \<times> 64 word \<times> 64 word" where
  "node_key n = (service n, operation n, x_coord n, y_coord n, z_coord n)"

subsection \<open>Strict mode\<close>

text \<open>
  Modelled from the spec: the height read from a possibly empty subtree, for the
  height-balanced (Strict) discipline of section 4.4, which has no implementation in
  the sources. The height of a node is stored in its \<^verbatim>\<open>height\<close> field.
\<close>

fun stored_height :: "atlas_tree \<Rightarrow> int" where
  "stored_height Empty = 0"
| "stored_height (Branch l n r) = height n"

text \<open>
  Modelled from the spec: the node constructor of the Strict discipline, missing from
  the sources; it sets the stored height from the two subtrees.
\<close>

definition make_branch :: "atlas_tree \<Rightarrow> NLMAtlasNode \<Rightarrow> atlas_tree \<Rightarrow> atlas_tree" where
  "make_branch l n r = Branch l (n\<lparr> height := max (stored_height l) (stored_height r) + 1 \<rparr>) r"

text \<open>
  Modelled from the spec: the right rotation of a height-balanced tree, missing from
  the sources.
\<close>

fun rotate_right :: "atlas_tree \<Rightarrow> atlas_tree" where
  "rotate_right (Branch (Branch a x b) y c) = make_branch a x (make_branch b y c)"
| "rotate_right t = t"

text \<open>
  Modelled from the spec: the left rotation of a height-balanced tree, missing from the
  sources; the mirror image of \<^const>\<open>rotate_right\<close>.
\<close>

fun rotate_left :: "atlas_tree \<Rightarrow> atlas_tree" where
  "rotate_left (Branch a x (Branch b y c)) = make_branch (make_branch a x b) y c"
| "rotate_left t = t"

text \<open>
  Modelled from the spec: the balance factor, left height minus right height, of the
  Strict discipline, missing from the sources.
\<close>

fun balance_factor :: "atlas_tree \<Rightarrow> int" where
  "balance_factor Empty = 0"
| "balance_factor (Branch l n r) = stored_height l - stored_height r"

text \<open>
  Modelled from the spec: the rebalancing step of the Strict discipline (section 4.4,
  ``rebalances per active mode''), missing from the sources: a node whose subtrees
  differ in height by more than one is repaired by a single or a double rotation.
\<close>

definition strict_rebalance :: "atlas_tree \<Rightarrow> NLMAtlasNode \<Rightarrow> atlas_tree \<Rightarrow> atlas_tree" where
  "strict_rebalance l n r =
     (if stored_height l - stored_height r > 1 then
        (if balance_factor l < 0
         then rotate_right (make_branch (rotate_left l) n r)
         else rotate_right (make_branch l n r))
      else if stored_height r - stored_height l > 1 then
        (if balance_factor r > 0
         then rotate_left (make_branch l n (rotate_right r))
         else rotate_left (make_branch l n r))
      else make_branch l n r)"

text \<open>
  Modelled from the spec: \<open>insert(node)\<close> in Strict mode (section 4.4), missing from
  the sources. A node whose key is already present replaces the payload of the old
  node and keeps its balance metadata.
\<close>

fun strict_insert :: "NLMAtlasNode \<Rightarrow> atlas_tree \<Rightarrow> atlas_tree" where
  "strict_insert x Empty = Branch Empty (x\<lparr> mode := TREE_MODE_AVL, height := 1 \<rparr>) Empty"
| "strict_insert x (Branch l n r) =
     (if node_key x < node_key n then strict_rebalance (strict_insert x l) n r
      else if node_key n < node_key x then strict_rebalance l n (strict_insert x r)
      else Branch l (x\<lparr> mode := mode n, height := height n, color := color n \<rparr>) r)"

subsection \<open>Relaxed mode\<close>

text \<open>
  Modelled from the spec: whether a subtree has a red root, for the color-balanced
  (Relaxed) discipline of section 4.4, which has no implementation in the sources. The
  empty tree counts as black.
\<close>

fun red_root :: "atlas_tree \<Rightarrow> bool" where
  "red_root Empty = False"
| "red_root (Branch l n r) = (color n = RED)"

text \<open>Modelled from the spec: recolouring of a root, missing from the sources.\<close>

fun paint :: "Color \<Rightarrow> atlas_tree \<Rightarrow> atlas_tree" where
  "paint c Empty = Empty"
| "paint c (Branch l n r) = Branch l (n\<lparr> color := c \<rparr>) r"

text \<open>
  Modelled from the spec: the repair of the Relaxed discipline below a black node
  \<open>z\<close>, missing from the sources. A red child with a red child of its own is rotated
  above \<open>z\<close> and recoloured, so that the red node ends with two black children.
\<close>

definition relaxed_fix_left :: "atlas_tree \<Rightarrow> NLMAtlasNode \<Rightarrow> atlas_tree \<Rightarrow> atlas_tree" where
  "relaxed_fix_left l z r =
     (case l of
        Branch (Branch a x b) y c \<Rightarrow>
          (if color y = RED \<and> color x = RED then
             Branch (Branch a (x\<lparr> color := BLACK \<rparr>) b) (y\<lparr> color := RED \<rparr>)
                    (Branch c (z\<lparr> color := BLACK \<rparr>) r)
           else if color y = RED \<and> red_root c then
             (case c of
                Branch c1 w c2 \<Rightarrow>
                  Branch (Branch (Branch a x b) (y\<lparr> color := BLACK \<rparr>) c1) (w\<lparr> color := RED \<rparr>)
                         (Branch c2 (z\<lparr> color := BLACK \<rparr>) r)
              | Empty \<Rightarrow> Branch l z r)
           else Branch l z r)
      | Branch Empty y c \<Rightarrow>
          (if color y = RED \<and> red_root c then
             (case c of
                Branch c1 w c2 \<Rightarrow>
                  Branch (Branch Empty (y\<lparr> color := BLACK \<rparr>) c1) (w\<lparr> color := RED \<rparr>)
                         (Branch c2 (z\<lparr> color := BLACK \<rparr>) r)
              | Empty \<Rightarrow> Branch l z r)
           else Branch l z r)
      | Empty \<Rightarrow> Branch l z r)"

text \<open>
  Modelled from the spec: the same repair for the right subtree, missing from the
  sources; the mirror image of \<^const>\<open>relaxed_fix_left\<close>.
\<close>

definition relaxed_fix_right :: "atlas_tree \<Rightarrow> NLMAtlasNode \<Rightarrow> atlas_tree \<Rightarrow> atlas_tree" where
  "relaxed_fix_right l z r =
     (case r of
        Branch a y (Branch b x c) \<Rightarrow>
          (if color y = RED \<and> color x = RED then
             Branch (Branch l (z\<lparr> color := BLACK \<rparr>) a) (y\<lparr> color := RED \<rparr>)
                    (Branch b (x\<lparr> color := BLACK \<rparr>) c)
           else if color y = RED \<and> red_root a then
             (case a of
                Branch a1 w a2 \<Rightarrow>
                  Branch (Branch l (z\<lparr> color := BLACK \<rparr>) a1) (w\<lparr> color := RED \<rparr>)
                         (Branch a2 (y\<lparr> color := BLACK \<rparr>) (Branch b x c))
              | Empty \<Rightarrow> Branch l z r)
           else Branch l z r)
      | Branch a y Empty \<Rightarrow>
          (if color y = RED \<and> red_root a then
             (case a of
                Branch a1 w a2 \<Rightarrow>
                  Branch (Branch l (z\<lparr> color := BLACK \<rparr>) a1) (w\<lparr> color := RED \<rparr>)
                         (Branch a2 (y\<lparr> color := BLACK \<rparr>) Empty)
              | Empty \<Rightarrow> Branch l z r)
           else Branch l z r)
      | Empty \<Rightarrow> Branch l z r)"

text \<open>
  Modelled from the spec: the descent of \<open>insert(node)\<close> in Relaxed mode (section 4.4),
  missing from the sources. The new node is red; a node whose key is already present
  replaces the payload of the old node and keeps its balance metadata.
\<close>

fun relaxed_descend :: "NLMAtlasNode \<Rightarrow> atlas_tree \<Rightarrow> atlas_tree" where
  "relaxed_descend x Empty = Branch Empty (x\<lparr> mode := TREE_MODE_RB, color := RED \<rparr>) Empty"
| "relaxed_descend x (Branch l n r) =
     (if node_key x < node_key n then
        (if color n = BLACK then relaxed_fix_left (relaxed_descend x l) n r
         else Branch (relaxed_descend x l) n r)
      else if node_key n < node_key x then
        (if color n = BLACK then relaxed_fix_right l n (relaxed_descend x r)
         else Branch l n (relaxed_descend x r))
      else Branch l (x\<lparr> mode := mode n, height := height n, color := color n \<rparr>) r)"

text \<open>
  Modelled from the spec: \<open>insert(node)\<close> in Relaxed mode (section 4.4), missing from
  the sources: the descent, then the root is painted black.
\<close>

definition relaxed_insert :: "NLMAtlasNode \<Rightarrow> atlas_tree \<Rightarrow> atlas_tree" where
  "relaxed_insert x t = paint BLACK (relaxed_descend x t)"

subsection \<open>Insertion per active mode\<close>

text \<open>
  Modelled from the spec: \<open>insert(node)\<close> of section 4.4, which ``rebalances per active
  mode''; it is missing from the sources. Hybrid delegates to Strict or to Relaxed
  according to the read/write ratio observed outside, here the flag \<open>read_heavy\<close>.
\<close>

definition atlas_insert :: "TreeMode \<Rightarrow> bool \<Rightarrow> NLMAtlasNode \<Rightarrow> atlas_tree \<Rightarrow> atlas_tree" where
  "atlas_insert active read_heavy x t =
     (case active of
        TREE_MODE_AVL \<Rightarrow> strict_insert x t
      | TREE_MODE_RB \<Rightarrow> relaxed_insert x t
      | TREE_MODE_HYBRID \<Rightarrow> (if read_heavy then strict_insert x t else relaxed_insert x t))"

text \<open>
  Modelled from the spec: the tree after a sequence of inserts under one active mode,
  starting from the empty tree (\<^verbatim>\<open>service_tree = NULL\<close> after initialisation).
\<close>

definition atlas_build :: "TreeMode \<Rightarrow> bool \<Rightarrow> NLMAtlasNode list \<Rightarrow> atlas_tree" where
  "atlas_build active read_heavy nodes = fold (atlas_insert active read_heavy) nodes Empty"

subsection \<open>The quantities of the invariants\<close>

text \<open>The height of a tree: the number of nodes on its longest path to a leaf.\<close>

fun tree_height :: "atlas_tree \<Rightarrow> nat" where
  "tree_height Empty = 0"
| "tree_height (Branch l n r) = max (tree_height l) (tree_height r) + 1"

fun node_count :: "atlas_tree \<Rightarrow> nat" where
  "node_count Empty = 0"
| "node_count (Branch l n r) = node_count l + node_count r + 1"

text \<open>The colours along each path from the root to a leaf, and every subtree.\<close>

fun color_paths :: "atlas_tree \<Rightarrow> Color list list" where
  "color_paths Empty = [[]]"
| "color_paths (Branch l n r) = map ((#) (color n)) (color_paths l @ color_paths r)"

fun subtrees :: "atlas_tree \<Rightarrow> atlas_tree list" where
  "subtrees Empty = [Empty]"
| "subtrees (Branch l n r) = Branch l n r # subtrees l @ subtrees r"

fun consecutive_red :: "Color list \<Rightarrow> bool" where
  "consecutive_red (RED # RED # cs) = True"
| "consecutive_red (c # cs) = consecutive_red cs"
| "consecutive_red [] = False"

definition black_count :: "Color list \<Rightarrow> nat" where
  "black_count p = length (filter (\<lambda>c. c = BLACK) p)"

subsection \<open>Balance invariants\<close>

text \<open>
  Height balance: at every node the two subtrees differ in height by at most one, and
  the stored height is the height.
\<close>

fun height_balanced :: "atlas_tree \<Rightarrow> bool" where
  "height_balanced Empty = True"
| "height_balanced (Branch l n r) =
     (height_balanced l \<and> height_balanced r \<and>
      tree_height l \<le> tree_height r + 1 \<and> tree_height r \<le> tree_height l + 1 \<and>
      height n = int (max (tree_height l) (tree_height r) + 1))"

text \<open>
  Colour balance, stated on the nodes: no red node has a red child (\<open>red_free\<close>, and
  \<open>red_free_below\<close> when the root itself is exempt), and at every node the black
  height of the two subtrees is the same.
\<close>

fun red_free :: "atlas_tree \<Rightarrow> bool" where
  "red_free Empty = True"
| "red_free (Branch l n r) =
     (red_free l \<and> red_free r \<and> (color n = BLACK \<or> \<not> red_root l \<and> \<not> red_root r))"

fun red_free_below :: "atlas_tree \<Rightarrow> bool" where
  "red_free_below Empty = True"
| "red_free_below (Branch l n r) = (red_free l \<and> red_free r)"

fun black_height :: "atlas_tree \<Rightarrow> nat" where
  "black_height Empty = 0"
| "black_height (Branch l n r) = black_height l + (if color n = BLACK then 1 else 0)"

fun black_balanced :: "atlas_tree \<Rightarrow> bool" where
  "black_balanced Empty = True"
| "black_balanced (Branch l n r) =
     (black_balanced l \<and> black_balanced r \<and> black_height l = black_height r)"

text \<open>Two discovery nodes that differ in the functional coordinate only.\<close>

definition sample_node :: "nat \<Rightarrow> NLMAtlasNode" where
  "sample_node k =
     \<lparr> service = ''tts'', operation = ''synthesize'', x_coord = of_nat k, y_coord = 0,
       z_coord = 0, mode = TREE_MODE_HYBRID, height = 0, color = RED, dynamic_cost = 0,
       confidence_score = 0, access_frequency = 0 \<rparr>"

section \<open>Properties\<close>

subsection \<open>The zones of the drift state machine\<close>

lemma drift_zone_eq:
  "drift_zone sys d =
     Some (if failure_magnitude d < - 3 then AI_STRESS
           else if failure_magnitude d > 3 then HUMAN_STRESS else GREEN)"
  by (simp add: drift_zone_def obivox_handle_drift_def system_zone_def)

text \<open>
  C1, as the spec states it, at its first two sample points: a drift of 0.374 has
  failure magnitude \<open>-3.024 < -3\<close>, so the cycle ends in the AI stress zone and not in
  the green zone; a drift of 0.375 has failure magnitude exactly \<open>-3\<close>, so the cycle
  ends in the green zone and not in the AI stress zone.
\<close>

theorem C1_counterexample:
  "drift_zone obivox_nlm_init 0.374 = Some AI_STRESS \<and>
   drift_zone obivox_nlm_init 0.374 \<noteq> Some GREEN \<and>
   drift_zone obivox_nlm_init 0.375 = Some GREEN \<and>
   drift_zone obivox_nlm_init 0.375 \<noteq> Some AI_STRESS"
  by (simp add: drift_zone_eq failure_magnitude_def)

text \<open>
  C1, amended: the zone is decided by the strict comparisons of
  \<open>failure_magnitude = drift * 24 - 12\<close> with \<open>-3\<close> and \<open>3\<close>; so 0.374 yields AI_STRESS,
  0.375 (failure magnitude exactly \<open>-3\<close>) yields GREEN, 0.625 (exactly \<open>3\<close>) yields
  GREEN and 0.626 yields HUMAN_STRESS.
\<close>

theorem C1_zone_boundaries:
  "drift_zone sys 0.374 = Some AI_STRESS \<and>
   drift_zone sys 0.375 = Some GREEN \<and>
   drift_zone sys 0.625 = Some GREEN \<and>
   drift_zone sys 0.626 = Some HUMAN_STRESS \<and>
   (drift_zone sys d = Some AI_STRESS) = (d * 24 - 12 < - 3) \<and>
   (drift_zone sys d = Some HUMAN_STRESS) = (d * 24 - 12 > 3) \<and>
   (drift_zone sys d = Some GREEN) = (- 3 \<le> d * 24 - 12 \<and> d * 24 - 12 \<le> 3)"
  by (simp add: drift_zone_eq failure_magnitude_def)

subsection \<open>The recovery-attempt cap\<close>

lemma drift_check_ai_stress:
  assumes "0.3 < drift_magnitude sys"
    and "failure_magnitude (drift_magnitude sys) < - 3"
  shows "obivox_bidirectional_convert_drift_check sys =
           (if recovery_attempts sys < 3
            then sys\<lparr> current_tree_mode := TREE_MODE_RB, coherence_threshold := 0.85,
                      recovery_attempts := recovery_attempts sys + 1,
                      fault_tolerance_enabled := True \<rparr>
            else sys\<lparr> current_tree_mode := TREE_MODE_RB, coherence_threshold := 0.85 \<rparr>)"
  using assms
  by (simp add: obivox_bidirectional_convert_drift_check_def obivox_handle_drift_def)

lemma ai_stress_cycles_0:
  "ai_stress_cycles 0 =
     obivox_nlm_init\<lparr> current_tree_mode := TREE_MODE_RB, coherence_threshold := 0.85,
                        drift_magnitude := 0.35 \<rparr>"
  by (simp add: ai_stress_cycles_def drift_reported_def obivox_handle_drift_def
      failure_magnitude_def)

lemma ai_stress_cycles_Suc:
  "ai_stress_cycles (Suc n) = obivox_bidirectional_convert_drift_check (ai_stress_cycles n)"
  by (simp add: ai_stress_cycles_def)

lemma ai_stress_cycles_drift:
  "drift_magnitude (ai_stress_cycles n) = 0.35"
proof (induction n)
  case 0
  show ?case by (simp add: ai_stress_cycles_0)
next
  case (Suc n)
  have a: "0.3 < drift_magnitude (ai_stress_cycles n)"
    and b: "failure_magnitude (drift_magnitude (ai_stress_cycles n)) < - 3"
    by (simp_all add: Suc failure_magnitude_def)
  show ?case
    by (simp add: ai_stress_cycles_Suc drift_check_ai_stress [OF a b] Suc)
qed

lemma ai_stress_cycles_step:
  "ai_stress_cycles (Suc n) =
     (if recovery_attempts (ai_stress_cycles n) < 3
      then (ai_stress_cycles n)\<lparr> current_tree_mode := TREE_MODE_RB, coherence_threshold := 0.85,
                recovery_attempts := recovery_attempts (ai_stress_cycles n) + 1,
                fault_tolerance_enabled := True \<rparr>
      else (ai_stress_cycles n)\<lparr> current_tree_mode := TREE_MODE_RB, coherence_threshold := 0.85 \<rparr>)"
proof -
  have a: "0.3 < drift_magnitude (ai_stress_cycles n)"
    and b: "failure_magnitude (drift_magnitude (ai_stress_cycles n)) < - 3"
    by (simp_all add: ai_stress_cycles_drift failure_magnitude_def)
  show ?thesis
    unfolding ai_stress_cycles_Suc by (rule drift_check_ai_stress [OF a b])
qed

lemma ai_stress_cycles_attempts_Suc:
  "recovery_attempts (ai_stress_cycles 0) = 0"
  "recovery_attempts (ai_stress_cycles (Suc 0)) = 1"
  "recovery_attempts (ai_stress_cycles (Suc (Suc 0))) = 2"
  "recovery_attempts (ai_stress_cycles (Suc (Suc (Suc 0)))) = 3"
  "recovery_attempts (ai_stress_cycles (Suc (Suc (Suc (Suc 0))))) = 3"
proof -
  show r0: "recovery_attempts (ai_stress_cycles 0) = 0"
    by (simp add: ai_stress_cycles_0 obivox_nlm_init_def)
  show r1: "recovery_attempts (ai_stress_cycles (Suc 0)) = 1"
    by (simp add: ai_stress_cycles_step [of 0] r0)
  show r2: "recovery_attempts (ai_stress_cycles (Suc (Suc 0))) = 2"
    by (simp add: ai_stress_cycles_step [of "Suc 0"] r1)
  show r3: "recovery_attempts (ai_stress_cycles (Suc (Suc (Suc 0)))) = 3"
    by (simp add: ai_stress_cycles_step [of "Suc (Suc 0)"] r2)
  show "recovery_attempts (ai_stress_cycles (Suc (Suc (Suc (Suc 0))))) = 3"
    by (simp add: ai_stress_cycles_step [of "Suc (Suc (Suc 0))"] r3)
qed

lemma nat_numerals_Suc:
  "(1::nat) = Suc 0" "(2::nat) = Suc (Suc 0)" "(3::nat) = Suc (Suc (Suc 0))"
  "(4::nat) = Suc (Suc (Suc (Suc 0)))"
  by simp_all

lemma ai_stress_cycles_attempts:
  "map (\<lambda>n. recovery_attempts (ai_stress_cycles n)) [0, 1, 2, 3, 4] = [0, 1, 2, 3, 3]"
  unfolding nat_numerals_Suc list.map ai_stress_cycles_attempts_Suc by (rule refl)

lemma ai_stress_cycles_zone:
  "system_zone (ai_stress_cycles (Suc n)) = AI_STRESS"
  by (simp add: ai_stress_cycles_step system_zone_def)

lemma handle_drift_ai_stress:
  assumes "failure_magnitude d < - 3"
  shows "obivox_handle_drift (Some sys) d (Some b) =
           Inr (sys\<lparr> current_tree_mode := TREE_MODE_RB, coherence_threshold := 0.85,
                      drift_magnitude := d \<rparr>, True)"
  using assms by (simp add: obivox_handle_drift_def)

text \<open>
  C2, as the spec states it, on the fourth consecutive AI-stress cycle: with
  \<open>recovery_attempts = 3\<close> the drift handler still sets \<open>should_cascade\<close> to true, and
  the cycle ends in the AI stress zone, not in the human stress zone.
\<close>

theorem C2_counterexample:
  "recovery_attempts (ai_stress_cycles 3) = 3 \<and>
   obivox_handle_drift (Some (ai_stress_cycles 3)) 0.35 (Some False) =
     Inr ((ai_stress_cycles 3)\<lparr> current_tree_mode := TREE_MODE_RB,
                                  coherence_threshold := 0.85,
                                  drift_magnitude := 0.35 \<rparr>, True) \<and>
   system_zone (ai_stress_cycles 4) \<noteq> HUMAN_STRESS"
proof -
  have "recovery_attempts (ai_stress_cycles 3) = 3"
    unfolding nat_numerals_Suc by (rule ai_stress_cycles_attempts_Suc)
  moreover have "failure_magnitude 0.35 < - 3"
    by (simp add: failure_magnitude_def)
  moreover have "system_zone (ai_stress_cycles 4) = AI_STRESS"
    unfolding nat_numerals_Suc by (rule ai_stress_cycles_zone)
  ultimately show ?thesis
    by (simp add: handle_drift_ai_stress)
qed

text \<open>
  C2, amended: in the AI stress zone the drift handler sets \<open>should_cascade\<close> to true
  whatever \<open>recovery_attempts\<close> is; the converter performs the recovery step
  (\<open>recovery_attempts + 1\<close>, fault tolerance on) only while \<open>recovery_attempts < 3\<close>
  and otherwise leaves the counter alone; in both cases the cycle ends in the AI stress
  zone (Relaxed mode, threshold 0.85). Over four consecutive AI-stress cycles from 0
  the counter is 0, 1, 2, 3 and stays 3 after the fourth cycle, which performs no
  fourth recovery step.
\<close>

theorem C2_cascade_cap:
  assumes "0.3 < drift_magnitude sys"
    and "failure_magnitude (drift_magnitude sys) < - 3"
  shows "obivox_handle_drift (Some sys) (drift_magnitude sys) (Some b) =
           Inr (sys\<lparr> current_tree_mode := TREE_MODE_RB, coherence_threshold := 0.85 \<rparr>, True) \<and>
         obivox_bidirectional_convert_drift_check sys =
           (if recovery_attempts sys < 3
            then sys\<lparr> current_tree_mode := TREE_MODE_RB, coherence_threshold := 0.85,
                      recovery_attempts := recovery_attempts sys + 1,
                      fault_tolerance_enabled := True \<rparr>
            else sys\<lparr> current_tree_mode := TREE_MODE_RB, coherence_threshold := 0.85 \<rparr>) \<and>
         system_zone (obivox_bidirectional_convert_drift_check sys) = AI_STRESS \<and>
         map (\<lambda>n. recovery_attempts (ai_stress_cycles n)) [0, 1, 2, 3, 4] = [0, 1, 2, 3, 3]"
proof -
  have "obivox_handle_drift (Some sys) (drift_magnitude sys) (Some b) =
          Inr (sys\<lparr> current_tree_mode := TREE_MODE_RB, coherence_threshold := 0.85 \<rparr>, True)"
    by (simp add: handle_drift_ai_stress [OF assms(2)])
  moreover note drift_check_ai_stress [OF assms]
  moreover have "system_zone (obivox_bidirectional_convert_drift_check sys) = AI_STRESS"
    by (simp add: drift_check_ai_stress [OF assms] system_zone_def)
  moreover note ai_stress_cycles_attempts
  ultimately show ?thesis by blast
qed

theorem C2_cascade_cap_witness:
  "0.3 < drift_magnitude (ai_stress_cycles 0) \<and>
   failure_magnitude (drift_magnitude (ai_stress_cycles 0)) < - 3 \<and>
   recovery_attempts (ai_stress_cycles 0) = 0 \<and>
   recovery_attempts (obivox_bidirectional_convert_drift_check (ai_stress_cycles 0)) = 1 \<and>
   system_zone (obivox_bidirectional_convert_drift_check (ai_stress_cycles 0)) = AI_STRESS"
proof -
  have a: "0.3 < drift_magnitude (ai_stress_cycles 0)"
    and b: "failure_magnitude (drift_magnitude (ai_stress_cycles 0)) < - 3"
    by (simp_all add: ai_stress_cycles_drift failure_magnitude_def)
  have r: "recovery_attempts (ai_stress_cycles 0) = 0"
    by (rule ai_stress_cycles_attempts_Suc)
  show ?thesis
    using C2_cascade_cap [OF a b, of False] a b r by (simp add: system_zone_def)
qed

subsection \<open>The confidence of the coordinate mapper\<close>

lemma ai_stress_cycles_threshold:
  "coherence_threshold (ai_stress_cycles (Suc n)) = 0.85"
  by (simp add: ai_stress_cycles_step)

text \<open>
  C3, as the spec states it, after one AI-stress cycle: the system's coherence
  threshold is 0.85, yet the mapper gives a feature set of variation score 0 the
  confidence 0.954, not \<open>0.85 * (1 - 0.1 * 0) = 0.85\<close>.
\<close>

theorem C3_counterexample:
  "coherence_threshold (ai_stress_cycles 1) = 0.85 \<and>
   map_sum id confidence
     (obivox_map_to_nlm_space (Some flat_features)
        (Some (current_position (ai_stress_cycles 1)))) = Inr 0.954 \<and>
   (0.954 :: real) \<noteq>
     coherence_threshold (ai_stress_cycles 1) * (1 - 0.1 * variation_score flat_features)"
proof -
  have "coherence_threshold (ai_stress_cycles 1) = 0.85"
    using ai_stress_cycles_threshold [of 0] by simp
  then show ?thesis
    by (simp add: obivox_map_to_nlm_space_def flat_features_def)
qed

text \<open>
  C3, amended: for every feature set the mapper computes the output confidence as
  \<open>0.954 * (1 - 0.1 * variation_score)\<close> with the fixed constant 0.954; the function
  takes no system and the result does not depend on any coherence threshold.
\<close>

theorem C3_confidence_fixed_base:
  "map_sum id confidence (obivox_map_to_nlm_space (Some ft) (Some c)) =
     Inr (0.954 * (1 - 0.1 * variation_score ft))"
  by (simp add: obivox_map_to_nlm_space_def)

subsection \<open>Normalisation with preservation factor 1\<close>

text \<open>
  C4: with \<open>preservation_factor = 1\<close> neither pass of the normaliser is entered, for
  any buffer, sample count and flags: the call returns the buffer as it was.
\<close>

theorem C4_factor_one_identity:
  "obivox_apply_phonetic_normalization (Some audio) num_samples (Some acc) 1 = Inr audio"
  by (simp add: obivox_apply_phonetic_normalization_def)

subsection \<open>The detector on a buffer shorter than one window\<close>

lemma zcr_loop_in_bounds:
  "num_samples \<le> length audio \<Longrightarrow> 1 \<le> i \<Longrightarrow> \<exists>z. zcr_loop audio num_samples i zcr = Inr z"
proof (induction audio num_samples i zcr rule: zcr_loop.induct)
  case (1 audio num_samples i zcr)
  show ?case
  proof (cases "i < num_samples")
    case True
    with "1.prems" have r: "rd audio i = Some (audio ! i)" "rd audio (i - 1) = Some (audio ! (i - 1))"
      by (simp_all add: rd_def)
    from "1.IH" [OF True refl r(1) r(2)] "1.prems" True r show ?thesis
      by (subst zcr_loop.simps) simp
  next
    case False
    then show ?thesis by (subst zcr_loop.simps) simp
  qed
qed

lemma u32_in_range: "0 \<le> k \<Longrightarrow> k < 2 ^ 32 \<Longrightarrow> u32 k = nat k"
  by (simp add: u32_def)

lemma u32_negative: "- (2 ^ 32) \<le> k \<Longrightarrow> k < 0 \<Longrightarrow> u32 k = nat (k + 2 ^ 32)"
proof -
  assume a: "- (2 ^ 32) \<le> k" "k < 0"
  have "k mod 2 ^ 32 = (k + 2 ^ 32) mod 2 ^ 32" by simp
  also have "\<dots> = k + 2 ^ 32" using a by (intro mod_pos_pos_trivial) auto
  finally show ?thesis by (simp add: u32_def)
qed

lemma detect_short_buffer:
  assumes len: "length audio = unat num_samples"
    and short: "unat num_samples < 1024"
  shows "obivox_detect_speech_variations (Some audio) num_samples (Some acc) (Some v) =
           Some (Inl OutOfBounds)"
proof -
  define n where "n = unat num_samples"
  have n: "length audio = n" "n < 1024"
    using len short by (simp_all add: n_def)
  obtain z where z: "zcr_loop audio n 1 0 = Inr z"
    using zcr_loop_in_bounds [of n audio 1 0] n by auto
  have b: "u32 (int n - 1024) = n + 2 ^ 32 - 1024"
    using n by (subst u32_negative) (auto simp: nat_add_distrib nat_diff_distrib)
  have "rd audio (u32 (int 1024 + int 0)) = None"
    using n by (simp add: rd_def u32_in_range)
  then have c: "correlation_loop audio 1024 0 0 = None"
    by (subst correlation_loop.simps) simp
  have "repetition_loop audio (u32 (int n - 1024)) 1024 0 = Some (Inl OutOfBounds)"
    unfolding b using n by (subst repetition_loop.simps) (simp add: c)
  with z show ?thesis
    unfolding obivox_detect_speech_variations_def n_def [symmetric] by simp
qed

lemma detect_keeps_flags:
  assumes "obivox_detect_speech_variations (Some audio) num_samples (Some acc) (Some v) =
             Some (Inr (acc', score))"
  shows "(lisp_mitigation acc \<longrightarrow> lisp_mitigation acc') \<and>
         (stutter_detection acc \<longrightarrow> stutter_detection acc')"
  using assms
  by (auto simp: obivox_detect_speech_variations_def Let_def
      split: sum.splits option.splits if_splits)

text \<open>
  C5: on a buffer shorter than one 1024-sample window the detector does not fail with
  the invalid-argument code. The bound \<^verbatim>\<open>num_samples - window_size\<close> wraps around in
  \<^verbatim>\<open>uint32_t\<close>, the stutter loop is entered at \<open>i = 1024\<close> and its first read
  \<^verbatim>\<open>audio[1024]\<close> is outside the buffer.
\<close>

theorem C5_short_buffer_reads_out_of_bounds:
  assumes "length audio = unat num_samples" and "unat num_samples < 1024"
  shows "obivox_detect_speech_variations (Some audio) num_samples (Some acc) (Some v) =
           Some (Inl OutOfBounds) \<and>
         obivox_detect_speech_variations (Some audio) num_samples (Some acc) (Some v) \<noteq>
           Some (Inl InvalidArgument)"
  using detect_short_buffer [OF assms] by simp

theorem C5_short_buffer_witness:
  "length (replicate 100 (0::real)) = unat (100 :: 32 word) \<and> unat (100 :: 32 word) < 1024 \<and>
   obivox_detect_speech_variations (Some (replicate 100 0)) 100
     (Some (accessibility obivox_nlm_init)) (Some 0) = Some (Inl OutOfBounds)"
proof -
  have a: "length (replicate 100 (0::real)) = unat (100 :: 32 word)"
    and b: "unat (100 :: 32 word) < 1024"
    by simp_all
  show ?thesis
    using C5_short_buffer_reads_out_of_bounds [OF a b] a b by blast
qed

subsection \<open>The stutter pass of the normaliser\<close>

lemma window_fold_in_range:
  assumes "\<forall>j \<in> set js. u32 (int i + j) < length audio"
  shows "fold (\<lambda>j avg. case (avg, rd audio (u32 (int i + j))) of
                      (Some s, Some v) \<Rightarrow> Some (s + v)
                    | _ \<Rightarrow> None) js (Some s0) =
         Some (s0 + sum_list (map (\<lambda>j. audio ! u32 (int i + j)) js))"
  using assms
proof (induction js arbitrary: s0)
  case Nil
  show ?case by simp
next
  case (Cons j js)
  then show ?case by (simp add: rd_def add.assoc)
qed

lemma window_index:
  assumes "256 \<le> i" and "i + 256 < 2 ^ 32" and "j \<in> {- 256..256}"
  shows "u32 (int i + j) = nat (int i + j)"
  using assms by (intro u32_in_range) auto

lemma window_sum_in_range:
  assumes i: "256 \<le> i" and len: "i + 256 < length audio" and max: "length audio \<le> 2 ^ 32"
  shows "window_sum audio i = Some (\<Sum>k = i - 256..i + 256. audio ! k)"
proof -
  have w: "i + 256 < 2 ^ 32" using len max by simp
  have idx: "u32 (int i + j) = nat (int i + j)" if "j \<in> {- 256..256}" for j
    using window_index [OF i w that] .
  have "\<forall>j \<in> set [- 256..256]. u32 (int i + j) < length audio"
  proof
    fix j :: int
    assume "j \<in> set [- 256..256]"
    then have j: "j \<in> {- 256..256}" by (simp only: set_upto)
    with idx [OF j] len i show "u32 (int i + j) < length audio" by auto
  qed
  then have "window_sum audio i =
      Some (0 + sum_list (map (\<lambda>j. audio ! u32 (int i + j)) [- 256..256]))"
    unfolding window_sum_def by (rule window_fold_in_range)
  also have "sum_list (map (\<lambda>j. audio ! u32 (int i + j)) [- 256..256]) =
      (\<Sum>j \<in> {- 256..256}. audio ! u32 (int i + j))"
    by (simp only: sum_list_distinct_conv_sum_set [OF distinct_upto] set_upto)
  also have "\<dots> = (\<Sum>j \<in> {- 256..256}. audio ! nat (int i + j))"
    by (rule sum.cong) (simp_all add: idx)
  also have "\<dots> = (\<Sum>k = i - 256..i + 256. audio ! k)"
    using i by (intro sum.reindex_bij_witness [of _ "\<lambda>k. int k - int i" "\<lambda>j. nat (int i + j)"]) auto
  finally show ?thesis by simp
qed

lemma smooth_loop_spec:
  assumes "256 \<le> i" and "bound + 256 \<le> length audio" and "length audio \<le> 2 ^ 32"
  shows "\<exists>out. smooth_loop audio bound i f = Inr out \<and> length out = length audio \<and>
           (\<forall>k < length audio.
              out ! k =
                (if i \<le> k \<and> k < bound
                 then audio ! k * f +
                      ((\<Sum>j = k - 256..<k. out ! j) + (\<Sum>j = k..k + 256. audio ! j)) / 512 * (1 - f)
                 else audio ! k))"
  using assms
proof (induction audio bound i f rule: smooth_loop.induct)
  case (1 audio bound i f)
  show ?case
  proof (cases "i < bound")
    case False
    then have "smooth_loop audio bound i f = Inr audio"
      by (subst smooth_loop.simps) simp
    with False show ?thesis by auto
  next
    case True
    define s where "s = (\<Sum>k = i - 256..i + 256. audio ! k)"
    define a' where "a' = audio[i := audio ! i * f + s / 512 * (1 - f)]"
    have ws: "window_sum audio i = Some s"
      unfolding s_def using "1.prems" True by (intro window_sum_in_range) auto
    have "\<exists>out. smooth_loop a' bound (i + 1) f = Inr out \<and> length out = length a' \<and>
           (\<forall>k < length a'.
              out ! k =
                (if i + 1 \<le> k \<and> k < bound
                 then a' ! k * f +
                      ((\<Sum>j = k - 256..<k. out ! j) + (\<Sum>j = k..k + 256. a' ! j)) / 512 * (1 - f)
                 else a' ! k))"
      unfolding a'_def using "1.prems" by (intro "1.IH" [OF True ws]) auto
    then obtain out where run: "smooth_loop a' bound (i + 1) f = Inr out"
      and len: "length out = length a'"
      and out: "\<And>k. k < length a' \<Longrightarrow>
              out ! k =
                (if i + 1 \<le> k \<and> k < bound
                 then a' ! k * f +
                      ((\<Sum>j = k - 256..<k. out ! j) + (\<Sum>j = k..k + 256. a' ! j)) / 512 * (1 - f)
                 else a' ! k)"
      by blast
    have la: "length a' = length audio" by (simp add: a'_def)
    have ilen: "i < length audio" using True "1.prems" by simp
    have other: "a' ! k = audio ! k" if "k \<noteq> i" for k
      using that by (simp add: a'_def)
    have here: "a' ! i = audio ! i * f + s / 512 * (1 - f)"
      using ilen by (simp add: a'_def)
    have eq: "smooth_loop audio bound i f = Inr out"
      using True ws run by (subst smooth_loop.simps) (simp add: a'_def)
    have "out ! k =
            (if i \<le> k \<and> k < bound
             then audio ! k * f +
                  ((\<Sum>j = k - 256..<k. out ! j) + (\<Sum>j = k..k + 256. audio ! j)) / 512 * (1 - f)
             else audio ! k)" if k: "k < length audio" for k
    proof -
      consider "k < i" | "k = i" | "i < k" "k < bound" | "bound \<le> k" by linarith
      then show ?thesis
      proof cases
        case 1
        then show ?thesis using out [of k] k la other [of k] by simp
      next
        case 2
        have low: "(\<Sum>j = i - 256..<i. out ! j) = (\<Sum>j = i - 256..<i. audio ! j)"
        proof (rule sum.cong [OF refl])
          fix j assume "j \<in> {i - 256..<i}"
          then have j: "j < i" by simp
          with ilen la have "j < length a'" by simp
          from out [OF this] j other [of j] show "out ! j = audio ! j" by simp
        qed
        have "{i - 256..i + 256} = {i - 256..<i} \<union> {i..i + 256}" by auto
        moreover have "{i - 256..<i} \<inter> {i..i + 256} = {}" by auto
        ultimately have "s = (\<Sum>j = i - 256..<i. audio ! j) + (\<Sum>j = i..i + 256. audio ! j)"
          unfolding s_def by (simp only: sum.union_disjoint [OF finite_atLeastLessThan finite_atLeastAtMost])
        with low have "s = (\<Sum>j = i - 256..<i. out ! j) + (\<Sum>j = i..i + 256. audio ! j)"
          by simp
        moreover have "out ! i = a' ! i" using out [of i] ilen la by simp
        ultimately show ?thesis using 2 True here by simp
      next
        case 3
        have "(\<Sum>j = k..k + 256. a' ! j) = (\<Sum>j = k..k + 256. audio ! j)"
          by (rule sum.cong [OF refl]) (use 3 other in auto)
        then show ?thesis using out [of k] k la other [of k] 3 by simp
      next
        case 4
        then show ?thesis using out [of k] k la other [of k] True by simp
      qed
    qed
    with eq len la show ?thesis by auto
  qed
qed

lemma lisp_loop_in_bounds:
  "num_samples \<le> length audio \<Longrightarrow>
   \<exists>b. lisp_loop audio num_samples i f = Inr b \<and> length b = length audio"
proof (induction audio num_samples i f rule: lisp_loop.induct)
  case (1 audio num_samples i f)
  show ?case
  proof (cases "i < num_samples")
    case False
    then show ?thesis by (subst lisp_loop.simps) simp
  next
    case True
    show ?thesis
    proof (cases "0 < i")
      case False
      with True "1.IH"(2) "1.prems" show ?thesis
        by (subst lisp_loop.simps) simp
    next
      case pos: True
      from True "1.prems" have r: "rd audio i = Some (audio ! i)"
        "rd audio (i - 1) = Some (audio ! (i - 1))"
        by (simp_all add: rd_def)
      from "1.IH"(1) [OF True pos refl r] "1.prems" True pos r show ?thesis
        by (subst lisp_loop.simps) simp
    qed
  qed
qed

lemma normalization_stutter_pass:
  assumes st: "stutter_detection acc" and f: "f < 1"
    and len: "length audio = unat num_samples" and big: "512 \<le> unat num_samples"
  shows "\<exists>b out.
           (if lisp_mitigation acc then lisp_loop audio (unat num_samples) 0 f else Inr audio) = Inr b \<and>
           length b = length audio \<and>
           obivox_apply_phonetic_normalization (Some audio) num_samples (Some acc) f = Inr out \<and>
           length out = length audio \<and>
           (\<forall>k < length audio.
              out ! k =
                (if 512 \<le> k \<and> k + 512 < length audio
                 then b ! k * f +
                      ((\<Sum>j = k - 256..<k. out ! j) + (\<Sum>j = k..k + 256. b ! j)) / 512 * (1 - f)
                 else b ! k))"
proof -
  define n where "n = unat num_samples"
  have "unat num_samples < 2 ^ LENGTH(32)"
    by (rule unsigned_less)
  then have n: "length audio = n" "512 \<le> n" "n \<le> 2 ^ 32"
    using len big by (simp_all add: n_def)
  have bound: "u32 (int n - 512) = n - 512"
    using n by (subst u32_in_range) (auto simp: nat_diff_distrib)
  obtain b where b: "(if lisp_mitigation acc then lisp_loop audio n 0 f else Inr audio) = Inr b"
    and lb: "length b = length audio"
    using lisp_loop_in_bounds [of n audio 0 f] n by (cases "lisp_mitigation acc") auto
  have "\<exists>out. smooth_loop b (n - 512) 512 f = Inr out \<and> length out = length b \<and>
           (\<forall>k < length b.
              out ! k =
                (if 512 \<le> k \<and> k < n - 512
                 then b ! k * f +
                      ((\<Sum>j = k - 256..<k. out ! j) + (\<Sum>j = k..k + 256. b ! j)) / 512 * (1 - f)
                 else b ! k))"
    using n lb by (intro smooth_loop_spec) auto
  then obtain out where run: "smooth_loop b (n - 512) 512 f = Inr out"
    and lo: "length out = length b"
    and out: "\<And>k. k < length b \<Longrightarrow>
              out ! k =
                (if 512 \<le> k \<and> k < n - 512
                 then b ! k * f +
                      ((\<Sum>j = k - 256..<k. out ! j) + (\<Sum>j = k..k + 256. b ! j)) / 512 * (1 - f)
                 else b ! k)"
    by blast
  have cond: "(k < n - 512) = (k + 512 < length audio)" for k
    using n by auto
  have "obivox_apply_phonetic_normalization (Some audio) num_samples (Some acc) f = Inr out"
    unfolding obivox_apply_phonetic_normalization_def n_def [symmetric] bound
    using st f b run by (cases "lisp_mitigation acc") simp_all
  moreover have "\<forall>k < length audio.
              out ! k =
                (if 512 \<le> k \<and> k + 512 < length audio
                 then b ! k * f +
                      ((\<Sum>j = k - 256..<k. out ! j) + (\<Sum>j = k..k + 256. b ! j)) / 512 * (1 - f)
                 else b ! k)"
    using out lb by (simp add: cond)
  moreover note b [unfolded n_def] lb
  moreover have "length out = length audio"
    using lo lb by simp
  ultimately show ?thesis
    by (rule_tac x = b in exI, rule_tac x = out in exI) (intro conjI; assumption)
qed

lemma spike_buffer_nth:
  "k < 1025 \<Longrightarrow> spike_buffer ! k = (if k = 300 then 1 else 0)"
  by (simp add: spike_buffer_def)

lemma spike_buffer_length: "length spike_buffer = 1025"
  by (simp add: spike_buffer_def)

lemma spike_buffer_sum:
  assumes "u \<le> 1025"
  shows "(\<Sum>j = l..<u. spike_buffer ! j) = (if 300 \<in> {l..<u} then 1 else 0)"
proof -
  have "(\<Sum>j = l..<u. spike_buffer ! j) = (\<Sum>j = l..<u. if j = 300 then 1 else 0)"
    using assms by (intro sum.cong [OF refl]) (simp add: spike_buffer_nth)
  then show ?thesis by simp
qed

lemma spike_buffer_run:
  "\<exists>out. obivox_apply_phonetic_normalization (Some spike_buffer) 1025 (Some stutter_only) 0 =
            Inr out \<and>
         out ! 300 = 1 \<and> out ! 512 = 1 / 512"
proof -
  have "stutter_detection stutter_only" "(0::real) < 1"
    "length spike_buffer = unat (1025 :: 32 word)" "512 \<le> unat (1025 :: 32 word)"
    by (simp_all add: stutter_only_def obivox_nlm_init_def spike_buffer_length)
  from normalization_stutter_pass [OF this] obtain b out
    where b0: "(if lisp_mitigation stutter_only
                then lisp_loop spike_buffer (unat (1025 :: 32 word)) 0 0
                else Inr spike_buffer) = Inr b"
      and "length b = length spike_buffer"
      and run: "obivox_apply_phonetic_normalization (Some spike_buffer) 1025 (Some stutter_only) 0 =
                  Inr out"
      and "length out = length spike_buffer"
      and out0: "\<forall>k < length spike_buffer.
              out ! k =
                (if 512 \<le> k \<and> k + 512 < length spike_buffer
                 then b ! k * 0 +
                      ((\<Sum>j = k - 256..<k. out ! j) + (\<Sum>j = k..k + 256. b ! j)) / 512 * (1 - 0)
                 else b ! k)"
    by (elim exE conjE)
  from b0 have b: "b = spike_buffer"
    by (simp add: stutter_only_def)
  have out: "out ! k =
                (if 512 \<le> k \<and> k + 512 < length spike_buffer
                 then b ! k * 0 +
                      ((\<Sum>j = k - 256..<k. out ! j) + (\<Sum>j = k..k + 256. b ! j)) / 512 * (1 - 0)
                 else b ! k)" if "k < length spike_buffer" for k
    using out0 that by blast
  have margin: "out ! k = spike_buffer ! k" if "k < 512" for k
    using out [of k] that by (simp add: b spike_buffer_length)
  have o300: "out ! 300 = 1"
    by (simp add: margin spike_buffer_nth)
  have "(\<Sum>j = 256..<512. out ! j) = (\<Sum>j = 256..<512. spike_buffer ! j)"
    by (intro sum.cong [OF refl]) (simp add: margin)
  also have "\<dots> = 1"
    by (subst spike_buffer_sum) simp_all
  finally have low: "(\<Sum>j = 256..<512. out ! j) = 1" .
  have "{512..768::nat} = {512..<769}" by auto
  then have "(\<Sum>j = 512..768. spike_buffer ! j) = (\<Sum>j = 512..<769. spike_buffer ! j)"
    by simp
  also have "\<dots> = 0"
    by (subst spike_buffer_sum) simp_all
  finally have high: "(\<Sum>j = 512..768. spike_buffer ! j) = 0" .
  have "out ! 512 = 1 / 512"
    using out [of 512] low high by (simp add: b spike_buffer_length)
  with run o300 show ?thesis by blast
qed

text \<open>
  C6, as the spec states it, on the spike buffer with factor 0 and only the stutter
  flag set: sample 300 lies outside the half-window margins (\<open>256 \<le> 300\<close> and
  \<open>300 + 256 < 1025\<close>), so the claim replaces it by the blend, which is \<open>1/512\<close>; the
  code leaves it at 1. The first sample that the code replaces is sample 512.
\<close>

theorem C6_counterexample:
  "map_sum id (\<lambda>out. (out ! 300, out ! 512))
     (obivox_apply_phonetic_normalization (Some spike_buffer) 1025 (Some stutter_only) 0) =
     Inr (1, 1 / 512) \<and>
   spec_stutter_blend 0 spike_buffer 300 = 1 / 512 \<and>
   spike_buffer ! 300 = 1 \<and>
   (256::nat) \<le> 300 \<and> 300 + 256 < length spike_buffer"
proof -
  have "spec_stutter_blend 0 spike_buffer 300 = 1 / 512"
    unfolding spec_stutter_blend_def spec_moving_average_512_def
    by (subst spike_buffer_sum) simp_all
  moreover from spike_buffer_run obtain out
    where "obivox_apply_phonetic_normalization (Some spike_buffer) 1025 (Some stutter_only) 0 =
             Inr out"
      and "out ! 300 = 1" and "out ! 512 = 1 / 512"
    by (elim exE conjE)
  then have "map_sum id (\<lambda>out. (out ! 300, out ! 512))
     (obivox_apply_phonetic_normalization (Some spike_buffer) 1025 (Some stutter_only) 0) =
     Inr (1, 1 / 512)"
    by simp
  ultimately show ?thesis
    by (simp add: spike_buffer_nth spike_buffer_length)
qed

text \<open>
  C6, amended: when the stutter flag is set, \<open>preservation_factor < 1\<close> and the buffer
  holds its \<open>num_samples \<ge> 512\<close> samples, the stutter pass replaces exactly the samples
  outside a full-window margin of 512 samples at each end (indices
  \<open>512 \<le> k < num_samples - 512\<close>), in increasing order and in place, by
  \<open>factor * b[k] + (1 - factor) * s / 512\<close>, where \<open>b\<close> is the buffer that enters the
  pass (the input when the lisp flag is unset, the output of the lisp pass otherwise)
  and \<open>s\<close> is the sum of the 513 samples at \<open>k - 256 .. k + 256\<close>, those before \<open>k\<close>
  already replaced; it modifies no sample within the 512-sample margins, so none
  within the half-window margins.
\<close>

theorem C6_stutter_pass:
  assumes "stutter_detection acc" and "f < 1"
    and "length audio = unat num_samples" and "512 \<le> unat num_samples"
  shows "\<exists>b out.
           (if lisp_mitigation acc then lisp_loop audio (unat num_samples) 0 f else Inr audio) = Inr b \<and>
           length b = length audio \<and>
           obivox_apply_phonetic_normalization (Some audio) num_samples (Some acc) f = Inr out \<and>
           length out = length audio \<and>
           (\<forall>k < length audio.
              out ! k =
                (if 512 \<le> k \<and> k + 512 < length audio
                 then b ! k * f +
                      ((\<Sum>j = k - 256..<k. out ! j) + (\<Sum>j = k..k + 256. b ! j)) / 512 * (1 - f)
                 else b ! k))"
  using assms by (rule normalization_stutter_pass)

theorem C6_stutter_pass_witness:
  "stutter_detection stutter_only \<and> (0::real) < 1 \<and>
   length spike_buffer = unat (1025 :: 32 word) \<and> 512 \<le> unat (1025 :: 32 word) \<and>
   (\<exists>out. obivox_apply_phonetic_normalization (Some spike_buffer) 1025 (Some stutter_only) 0 =
            Inr out \<and> length out = 1025 \<and> out ! 0 = 0)"
proof -
  have h: "stutter_detection stutter_only" "(0::real) < 1"
    "length spike_buffer = unat (1025 :: 32 word)" "512 \<le> unat (1025 :: 32 word)"
    by (simp_all add: stutter_only_def obivox_nlm_init_def spike_buffer_length)
  from C6_stutter_pass [OF h] obtain b out
    where b0: "(if lisp_mitigation stutter_only
                then lisp_loop spike_buffer (unat (1025 :: 32 word)) 0 0
                else Inr spike_buffer) = Inr b"
      and "length b = length spike_buffer"
      and run: "obivox_apply_phonetic_normalization (Some spike_buffer) 1025 (Some stutter_only) 0 =
                  Inr out"
      and lo: "length out = length spike_buffer"
      and out0: "\<forall>k < length spike_buffer.
              out ! k =
                (if 512 \<le> k \<and> k + 512 < length spike_buffer
                 then b ! k * 0 +
                      ((\<Sum>j = k - 256..<k. out ! j) + (\<Sum>j = k..k + 256. b ! j)) / 512 * (1 - 0)
                 else b ! k)"
    by (elim exE conjE)
  from b0 have b: "b = spike_buffer"
    by (simp add: stutter_only_def)
  have "(0::nat) < length spike_buffer"
    by (simp add: spike_buffer_length)
  with out0 have "out ! 0 = (if (512::nat) \<le> 0 \<and> 0 + 512 < length spike_buffer
                 then b ! 0 * 0 +
                      ((\<Sum>j = 0 - 256..<0. out ! j) + (\<Sum>j = 0..0 + 256. b ! j)) / 512 * (1 - 0)
                 else b ! 0)"
    by blast
  then have o: "out ! 0 = 0"
    by (simp add: b spike_buffer_nth)
  from lo have l: "length out = 1025"
    by (simp add: spike_buffer_length)
  from run l o have "\<exists>out. obivox_apply_phonetic_normalization (Some spike_buffer) 1025
      (Some stutter_only) 0 = Inr out \<and> length out = 1025 \<and> out ! 0 = 0"
    by blast
  with h show ?thesis by blast
qed

subsection \<open>Feedback incorporation\<close>

text \<open>
  C7: with a supplied correction the feedback adds 0.1 to the y-axis and 0.05 to the
  z-axis, each capped at 1, and resets \<open>drift_magnitude\<close> and \<open>recovery_attempts\<close> to
  0; without one it leaves the coordinate alone and resets the same two fields. From
  \<open>y = 0.9\<close> and \<open>z = 0.99\<close> a correction gives \<open>y = 1\<close> and \<open>z = 1\<close>.
\<close>

theorem C7_incorporate_feedback:
  "obivox_incorporate_feedback (Some sys) (Some (fb\<lparr> suggested_correction := Some txt \<rparr>)) =
     Inr (sys\<lparr> current_position :=
                  (current_position sys)
                    \<lparr> y_axis := min (y_axis (current_position sys) + 0.1) 1,
                      z_axis := min (z_axis (current_position sys) + 0.05) 1 \<rparr>,
                drift_magnitude := 0, recovery_attempts := 0 \<rparr>) \<and>
   obivox_incorporate_feedback (Some sys) (Some (fb\<lparr> suggested_correction := None \<rparr>)) =
     Inr (sys\<lparr> drift_magnitude := 0, recovery_attempts := 0 \<rparr>) \<and>
   obivox_incorporate_feedback
       (Some (sys\<lparr> current_position := (current_position sys)\<lparr> y_axis := 0.9, z_axis := 0.99 \<rparr> \<rparr>))
       (Some (fb\<lparr> suggested_correction := Some txt \<rparr>)) =
     Inr (sys\<lparr> current_position := (current_position sys)\<lparr> y_axis := 1, z_axis := 1 \<rparr>,
                drift_magnitude := 0, recovery_attempts := 0 \<rparr>)"
  by (simp add: obivox_incorporate_feedback_def Let_def min_def)

subsection \<open>The confirmation gate\<close>

text \<open>
  C8: the escalation gate sets \<open>requires_confirmation\<close> exactly when the confidence is
  strictly below 0.85: true at 0.84, false at 0.86 (and false at 0.85 itself).
\<close>

theorem C8_requires_confirmation:
  "map_sum id (\<lambda>r. requires_confirmation (fst r))
     (obivox_request_human_validation (Some t) c (Some fb)) = Inr (c < 0.85) \<and>
   map_sum id (\<lambda>r. requires_confirmation (fst r))
     (obivox_request_human_validation (Some t) 0.84 (Some fb)) = Inr True \<and>
   map_sum id (\<lambda>r. requires_confirmation (fst r))
     (obivox_request_human_validation (Some t) 0.86 (Some fb)) = Inr False \<and>
   map_sum id (\<lambda>r. requires_confirmation (fst r))
     (obivox_request_human_validation (Some t) 0.85 (Some fb)) = Inr False"
  by (simp add: obivox_request_human_validation_def)

subsection \<open>The balance of the discovery tree\<close>

lemma stored_height_balanced:
  "height_balanced t \<Longrightarrow> stored_height t = int (tree_height t)"
  by (cases t) simp_all

lemma tree_height_make_branch:
  "tree_height (make_branch l n r) = max (tree_height l) (tree_height r) + 1"
  by (simp add: make_branch_def)

lemma height_balanced_make_branch:
  assumes "height_balanced l" and "height_balanced r"
    and "tree_height l \<le> tree_height r + 1" and "tree_height r \<le> tree_height l + 1"
  shows "height_balanced (make_branch l n r)"
  using assms by (simp add: make_branch_def stored_height_balanced)

lemma rebalance_even:
  assumes "height_balanced l" and "height_balanced r"
    and "tree_height l \<le> tree_height r + 1" and "tree_height r \<le> tree_height l + 1"
  shows "strict_rebalance l n r = make_branch l n r"
  using assms by (simp add: strict_rebalance_def stored_height_balanced)

lemma rebalance_left_heavy:
  assumes l: "height_balanced l" and r: "height_balanced r"
    and h: "tree_height l = tree_height r + 2"
  shows "height_balanced (strict_rebalance l n r) \<and>
         (tree_height (strict_rebalance l n r) = tree_height r + 2 \<or>
          tree_height (strict_rebalance l n r) = tree_height r + 3)"
proof -
  from h obtain a x c where lc: "l = Branch a x c" by (cases l) auto
  from l lc have a: "height_balanced a" and c: "height_balanced c"
    and ac: "tree_height a \<le> tree_height c + 1" "tree_height c \<le> tree_height a + 1"
    and hx: "height x = int (max (tree_height a) (tree_height c) + 1)"
    by simp_all
  from h lc have hl: "max (tree_height a) (tree_height c) = tree_height r + 1" by simp
  have big: "stored_height l - stored_height r > 1"
    using l r h by (simp add: stored_height_balanced)
  show ?thesis
  proof (cases "tree_height a < tree_height c")
    case False
    then have bf: "\<not> balance_factor l < 0"
      using a c lc by (simp add: stored_height_balanced)
    have eq: "strict_rebalance l n r = make_branch a x (make_branch c n r)"
      using big bf lc by (simp add: strict_rebalance_def make_branch_def)
    have inner: "height_balanced (make_branch c n r)"
      by (rule height_balanced_make_branch) (use c r hl ac False in \<open>auto\<close>)
    have "height_balanced (make_branch a x (make_branch c n r))"
      by (rule height_balanced_make_branch) (use a inner hl ac False in \<open>auto simp: tree_height_make_branch\<close>)
    moreover have "tree_height (make_branch a x (make_branch c n r)) = tree_height r + 2 \<or>
        tree_height (make_branch a x (make_branch c n r)) = tree_height r + 3"
      using hl ac False by (auto simp: tree_height_make_branch max_def)
    ultimately show ?thesis by (simp add: eq)
  next
    case True
    then have bf: "balance_factor l < 0"
      using a c lc by (simp add: stored_height_balanced)
    from True obtain b y d where cc: "c = Branch b y d" by (cases c) auto
    from c cc have b: "height_balanced b" and d: "height_balanced d"
      and bd: "tree_height b \<le> tree_height d + 1" "tree_height d \<le> tree_height b + 1"
      by simp_all
    from hl True cc have hc: "max (tree_height b) (tree_height d) = tree_height r"
      by (simp add: max_def split: if_splits)
    from ac True cc hc have ha: "tree_height a = tree_height r"
      by (simp add: max_def split: if_splits)
    have eq: "strict_rebalance l n r =
        make_branch (make_branch a x b) y (make_branch d n r)"
      using big bf lc cc by (simp add: strict_rebalance_def make_branch_def)
    have left: "height_balanced (make_branch a x b)"
      by (rule height_balanced_make_branch) (use a b ha hc bd in \<open>auto simp: max_def split: if_splits\<close>)
    have right: "height_balanced (make_branch d n r)"
      by (rule height_balanced_make_branch) (use d r hc bd in \<open>auto simp: max_def split: if_splits\<close>)
    have "height_balanced (make_branch (make_branch a x b) y (make_branch d n r))"
      by (rule height_balanced_make_branch) (use left right ha hc bd in \<open>auto simp: tree_height_make_branch max_def split: if_splits\<close>)
    moreover have "tree_height (make_branch (make_branch a x b) y (make_branch d n r)) =
        tree_height r + 2"
      using ha hc bd by (auto simp: tree_height_make_branch max_def split: if_splits)
    ultimately show ?thesis by (simp add: eq)
  qed
qed

lemma rebalance_right_heavy:
  assumes l: "height_balanced l" and r: "height_balanced r"
    and h: "tree_height r = tree_height l + 2"
  shows "height_balanced (strict_rebalance l n r) \<and>
         (tree_height (strict_rebalance l n r) = tree_height l + 2 \<or>
          tree_height (strict_rebalance l n r) = tree_height l + 3)"
proof -
  from h obtain a x c where rc: "r = Branch a x c" by (cases r) auto
  from r rc have a: "height_balanced a" and c: "height_balanced c"
    and ac: "tree_height a \<le> tree_height c + 1" "tree_height c \<le> tree_height a + 1"
    by simp_all
  from h rc have hr: "max (tree_height a) (tree_height c) = tree_height l + 1" by simp
  have small: "\<not> stored_height l - stored_height r > 1"
    and big: "stored_height r - stored_height l > 1"
    using l r h by (simp_all add: stored_height_balanced)
  show ?thesis
  proof (cases "tree_height c < tree_height a")
    case False
    then have bf: "\<not> balance_factor r > 0"
      using a c rc by (simp add: stored_height_balanced)
    have eq: "strict_rebalance l n r = make_branch (make_branch l n a) x c"
      using small big bf rc by (simp add: strict_rebalance_def make_branch_def)
    have inner: "height_balanced (make_branch l n a)"
      by (rule height_balanced_make_branch) (use l a hr ac False in \<open>auto\<close>)
    have "height_balanced (make_branch (make_branch l n a) x c)"
      by (rule height_balanced_make_branch)
         (use inner c hr ac False in \<open>auto simp: tree_height_make_branch\<close>)
    moreover have "tree_height (make_branch (make_branch l n a) x c) = tree_height l + 2 \<or>
        tree_height (make_branch (make_branch l n a) x c) = tree_height l + 3"
      using hr ac False by (auto simp: tree_height_make_branch max_def)
    ultimately show ?thesis by (simp add: eq)
  next
    case True
    then have bf: "balance_factor r > 0"
      using a c rc by (simp add: stored_height_balanced)
    from True obtain b y d where aa: "a = Branch b y d" by (cases a) auto
    from a aa have b: "height_balanced b" and d: "height_balanced d"
      and bd: "tree_height b \<le> tree_height d + 1" "tree_height d \<le> tree_height b + 1"
      by simp_all
    from hr True aa have ha: "max (tree_height b) (tree_height d) = tree_height l"
      by (simp add: max_def split: if_splits)
    from ac True aa ha have hc: "tree_height c = tree_height l"
      by (simp add: max_def split: if_splits)
    have eq: "strict_rebalance l n r =
        make_branch (make_branch l n b) y (make_branch d x c)"
      using small big bf rc aa by (simp add: strict_rebalance_def make_branch_def)
    have left: "height_balanced (make_branch l n b)"
      by (rule height_balanced_make_branch)
         (use l b ha bd in \<open>auto simp: max_def split: if_splits\<close>)
    have right: "height_balanced (make_branch d x c)"
      by (rule height_balanced_make_branch)
         (use d c ha hc bd in \<open>auto simp: max_def split: if_splits\<close>)
    have "height_balanced (make_branch (make_branch l n b) y (make_branch d x c))"
      by (rule height_balanced_make_branch)
         (use left right ha hc bd in
            \<open>auto simp: tree_height_make_branch max_def split: if_splits\<close>)
    moreover have "tree_height (make_branch (make_branch l n b) y (make_branch d x c)) =
        tree_height l + 2"
      using ha hc bd by (auto simp: tree_height_make_branch max_def split: if_splits)
    ultimately show ?thesis by (simp add: eq)
  qed
qed

lemma strict_insert_balanced:
  "height_balanced t \<Longrightarrow>
   height_balanced (strict_insert x t) \<and>
   (tree_height (strict_insert x t) = tree_height t \<or>
    tree_height (strict_insert x t) = tree_height t + 1)"
proof (induction t)
  case Empty
  show ?case by simp
next
  case (Branch l n r)
  from Branch.prems have l: "height_balanced l" and r: "height_balanced r"
    and lr: "tree_height l \<le> tree_height r + 1" "tree_height r \<le> tree_height l + 1"
    by simp_all
  note il = Branch.IH(1) [OF l] and ir = Branch.IH(2) [OF r]
  consider (lt) "node_key x < node_key n"
    | (gt) "\<not> node_key x < node_key n" "node_key n < node_key x"
    | (eq) "\<not> node_key x < node_key n" "\<not> node_key n < node_key x"
    by blast
  then show ?case
  proof cases
    case lt
    define l' where "l' = strict_insert x l"
    have l': "height_balanced l'"
      and hl': "tree_height l' = tree_height l \<or> tree_height l' = tree_height l + 1"
      using il by (simp_all add: l'_def)
    have ins: "strict_insert x (Branch l n r) = strict_rebalance l' n r"
      using lt by (simp add: l'_def)
    show ?thesis
    proof (cases "tree_height l' = tree_height r + 2")
      case True
      from rebalance_left_heavy [OF l' r True, of n] True hl' lr show ?thesis
        unfolding ins by (auto simp: max_def)
    next
      case False
      with hl' lr have ok: "tree_height l' \<le> tree_height r + 1" "tree_height r \<le> tree_height l' + 1"
        by auto
      have "strict_rebalance l' n r = make_branch l' n r"
        using l' r ok by (rule rebalance_even)
      moreover have "height_balanced (make_branch l' n r)"
        using l' r ok by (rule height_balanced_make_branch)
      ultimately show ?thesis
        unfolding ins using hl' by (auto simp: tree_height_make_branch max_def)
    qed
  next
    case gt
    define r' where "r' = strict_insert x r"
    have r': "height_balanced r'"
      and hr': "tree_height r' = tree_height r \<or> tree_height r' = tree_height r + 1"
      using ir by (simp_all add: r'_def)
    have ins: "strict_insert x (Branch l n r) = strict_rebalance l n r'"
      using gt by (simp add: r'_def)
    show ?thesis
    proof (cases "tree_height r' = tree_height l + 2")
      case True
      from rebalance_right_heavy [OF l r' True, of n] True hr' lr show ?thesis
        unfolding ins by (auto simp: max_def)
    next
      case False
      with hr' lr have ok: "tree_height l \<le> tree_height r' + 1" "tree_height r' \<le> tree_height l + 1"
        by auto
      have "strict_rebalance l n r' = make_branch l n r'"
        using l r' ok by (rule rebalance_even)
      moreover have "height_balanced (make_branch l n r')"
        using l r' ok by (rule height_balanced_make_branch)
      ultimately show ?thesis
        unfolding ins using hr' by (auto simp: tree_height_make_branch max_def)
    qed
  next
    case eq
    with Branch.prems show ?thesis by simp
  qed
qed

lemma node_count_make_branch:
  "node_count (make_branch l n r) = node_count l + node_count r + 1"
  by (simp add: make_branch_def)

lemma node_count_rotate_right: "node_count (rotate_right t) = node_count t"
  by (induction t rule: rotate_right.induct) (simp_all add: node_count_make_branch)

lemma node_count_rotate_left: "node_count (rotate_left t) = node_count t"
  by (induction t rule: rotate_left.induct) (simp_all add: node_count_make_branch)

lemma node_count_rebalance:
  "node_count (strict_rebalance l n r) = node_count l + node_count r + 1"
  by (simp add: strict_rebalance_def node_count_rotate_right node_count_rotate_left
      node_count_make_branch)

lemma node_count_strict_insert:
  "node_count (strict_insert x t) \<le> node_count t + 1"
  by (induction t) (simp_all add: node_count_rebalance)

lemma growth_rate: "(809 / 500 :: real) * (809 / 500) \<le> 809 / 500 + 1"
  by simp

lemma growth_rate_power: "(2::real) ^ 34 \<le> (809 / 500) ^ 49"
proof -
  have "(2::int) ^ 34 * 500 ^ 49 \<le> 809 ^ 49"
    by simp
  then have "real_of_int (2 ^ 34 * 500 ^ 49) \<le> real_of_int (809 ^ 49)"
    by (simp only: of_int_le_iff)
  then have "(2::real) ^ 34 * 500 ^ 49 \<le> 809 ^ 49"
    by simp
  then have "(2::real) ^ 34 \<le> 809 ^ 49 / 500 ^ 49"
    by (simp only: pos_le_divide_eq zero_less_power zero_less_numeral)
  then show ?thesis
    by (simp only: power_divide)
qed

lemma log_growth_rate: "34 / 49 \<le> log 2 (809 / 500 :: real)"
proof -
  have "log 2 ((2::real) ^ 34) \<le> log 2 ((809 / 500) ^ 49)"
    by (rule log_le_cancel_iff [THEN iffD2, OF _ _ _ growth_rate_power]) simp_all
  moreover have "log 2 ((2::real) ^ 34) = real 34 * log 2 2"
    by (rule log_nat_power) simp
  moreover have "log 2 ((809 / 500 :: real) ^ 49) = real 49 * log 2 (809 / 500)"
    by (rule log_nat_power) simp
  ultimately have "(34::real) \<le> 49 * log 2 (809 / 500)"
    by simp
  then show ?thesis by simp
qed

lemma height_bound:
  assumes g: "(809 / 500 :: real) ^ h \<le> real n + 1" and n: "n \<le> N"
  shows "int h \<le> \<lceil>1.442 * log 2 (real N + 2)\<rceil>"
proof -
  define L where "L = log 2 (real N + 2)"
  have L0: "0 \<le> L"
    unfolding L_def by (rule zero_le_log_cancel_iff [THEN iffD2]) simp_all
  have "(809 / 500 :: real) ^ h \<le> real N + 2"
    using g n by linarith
  then have "log 2 ((809 / 500 :: real) ^ h) \<le> L"
    unfolding L_def by (subst log_le_cancel_iff) simp_all
  then have "real h * log 2 (809 / 500 :: real) \<le> L"
    by (simp add: log_nat_power)
  moreover have "real h * (34 / 49) \<le> real h * log 2 (809 / 500 :: real)"
    by (rule mult_left_mono [OF log_growth_rate]) simp
  ultimately have "real h * (34 / 49) \<le> L" by linarith
  then have "real h \<le> 49 / 34 * L" by simp
  also have "\<dots> \<le> 1.442 * L"
    by (rule mult_right_mono [OF _ L0]) simp
  also have "\<dots> \<le> of_int \<lceil>1.442 * L\<rceil>"
    by (rule le_of_int_ceiling)
  finally have "real_of_int (int h) \<le> of_int \<lceil>1.442 * L\<rceil>" by simp
  then show ?thesis
    unfolding L_def by (simp only: of_int_le_iff)
qed

lemma balanced_growth:
  "height_balanced t \<Longrightarrow> (809 / 500 :: real) ^ tree_height t \<le> real (node_count t) + 1"
proof (induction t)
  case Empty
  show ?case by simp
next
  case (Branch l n r)
  define c :: real where "c = 809 / 500"
  from Branch.prems have l: "height_balanced l" and r: "height_balanced r"
    and lr: "tree_height l \<le> tree_height r + 1" "tree_height r \<le> tree_height l + 1"
    by simp_all
  have il: "c ^ tree_height l \<le> real (node_count l) + 1"
    and ir: "c ^ tree_height r \<le> real (node_count r) + 1"
    using Branch.IH l r by (simp_all add: c_def)
  have c2: "c * c \<le> c + 1" and c1: "c \<le> 2" and c0: "0 \<le> c"
    by (simp_all add: c_def)
  have pos: "0 \<le> c ^ k" for k using c0 by simp
  consider (same) "tree_height l = tree_height r"
    | (left) "tree_height l = tree_height r + 1"
    | (right) "tree_height r = tree_height l + 1"
    using lr by linarith
  then have "c ^ (max (tree_height l) (tree_height r) + 1) \<le>
      c ^ tree_height l + c ^ tree_height r"
  proof cases
    case same
    have "c * c ^ tree_height r \<le> 2 * c ^ tree_height r"
      by (rule mult_right_mono [OF c1 pos])
    with same show ?thesis by simp
  next
    case left
    have "c * c * c ^ tree_height r \<le> (c + 1) * c ^ tree_height r"
      by (rule mult_right_mono [OF c2 pos])
    with left show ?thesis by (simp add: algebra_simps)
  next
    case right
    have "c * c * c ^ tree_height l \<le> (c + 1) * c ^ tree_height l"
      by (rule mult_right_mono [OF c2 pos])
    with right show ?thesis by (simp add: algebra_simps)
  qed
  with il ir show ?case by (simp add: c_def)
qed

lemma not_RED [simp]: "(c \<noteq> RED) = (c = BLACK)"
  by (cases c) simp_all

lemma not_BLACK [simp]: "(c \<noteq> BLACK) = (c = RED)"
  by (cases c) simp_all

lemma red_free_paint_black: "red_free_below t \<Longrightarrow> red_free (paint BLACK t)"
  by (cases t) simp_all

lemma black_balanced_paint: "black_balanced (paint c t) = black_balanced t"
  by (cases t) simp_all

lemma red_free_fix_left:
  assumes "red_free_below l" and "red_free r" and "color z = BLACK"
  shows "red_free (relaxed_fix_left l z r)"
  using assms unfolding relaxed_fix_left_def
  by (auto split: atlas_tree.splits)

lemma red_free_fix_right:
  assumes "red_free l" and "red_free_below r" and "color z = BLACK"
  shows "red_free (relaxed_fix_right l z r)"
  using assms unfolding relaxed_fix_right_def
  by (auto split: atlas_tree.splits)

lemma black_fix_left:
  assumes "black_balanced l" and "black_balanced r" and "black_height l = black_height r"
    and "color z = BLACK"
  shows "black_balanced (relaxed_fix_left l z r) \<and>
         black_height (relaxed_fix_left l z r) = black_height l + 1"
  using assms unfolding relaxed_fix_left_def
  by (auto split: atlas_tree.splits)

lemma black_fix_right:
  assumes "black_balanced l" and "black_balanced r" and "black_height l = black_height r"
    and "color z = BLACK"
  shows "black_balanced (relaxed_fix_right l z r) \<and>
         black_height (relaxed_fix_right l z r) = black_height l + 1"
  using assms unfolding relaxed_fix_right_def
  by (auto split: atlas_tree.splits)

lemma red_free_imp_below: "red_free t \<Longrightarrow> red_free_below t"
  by (cases t) simp_all

lemma red_free_descend:
  "red_free t \<Longrightarrow>
   red_free_below (relaxed_descend x t) \<and> (red_root t \<or> red_free (relaxed_descend x t))"
proof (induction t)
  case Empty
  show ?case by simp
next
  case (Branch l n r)
  from Branch.prems have l: "red_free l" and r: "red_free r"
    and n: "color n = BLACK \<or> \<not> red_root l \<and> \<not> red_root r"
    by simp_all
  note il = Branch.IH(1) [OF l] and ir = Branch.IH(2) [OF r]
  show ?case
  proof (cases "color n = BLACK")
    case True
    have "red_free (relaxed_fix_left (relaxed_descend x l) n r)"
      using il r True by (intro red_free_fix_left) simp_all
    moreover have "red_free (relaxed_fix_right l n (relaxed_descend x r))"
      using ir l True by (intro red_free_fix_right) simp_all
    ultimately show ?thesis
      using True l r by (simp add: red_free_imp_below)
  next
    case False
    with n have "\<not> red_root l" "\<not> red_root r" by simp_all
    with il ir have "red_free (relaxed_descend x l)" "red_free (relaxed_descend x r)"
      by simp_all
    with False l r show ?thesis by simp
  qed
qed

lemma black_descend:
  "black_balanced t \<Longrightarrow>
   black_balanced (relaxed_descend x t) \<and> black_height (relaxed_descend x t) = black_height t"
proof (induction t)
  case Empty
  show ?case by simp
next
  case (Branch l n r)
  from Branch.prems have l: "black_balanced l" and r: "black_balanced r"
    and lr: "black_height l = black_height r"
    by simp_all
  note il = Branch.IH(1) [OF l] and ir = Branch.IH(2) [OF r]
  show ?case
  proof (cases "color n = BLACK")
    case True
    have "black_balanced (relaxed_fix_left (relaxed_descend x l) n r) \<and>
          black_height (relaxed_fix_left (relaxed_descend x l) n r) =
            black_height (relaxed_descend x l) + 1"
      using il r lr True by (intro black_fix_left) simp_all
    moreover have "black_balanced (relaxed_fix_right l n (relaxed_descend x r)) \<and>
          black_height (relaxed_fix_right l n (relaxed_descend x r)) = black_height l + 1"
      using ir l lr True by (intro black_fix_right) simp_all
    ultimately show ?thesis
      using True l r lr il by simp
  next
    case False
    with il ir l r lr show ?thesis by simp
  qed
qed

lemma relaxed_insert_invariants:
  assumes "red_free t" and "black_balanced t"
  shows "red_free (relaxed_insert x t) \<and> black_balanced (relaxed_insert x t)"
  using red_free_descend [OF assms(1), of x] black_descend [OF assms(2), of x]
  by (simp add: relaxed_insert_def red_free_paint_black black_balanced_paint)

lemma relaxed_fold_invariants:
  assumes "red_free t" and "black_balanced t"
  shows "red_free (fold relaxed_insert nodes t) \<and> black_balanced (fold relaxed_insert nodes t)"
  using assms
proof (induction nodes arbitrary: t)
  case Nil
  then show ?case by simp
next
  case (Cons x nodes)
  from relaxed_insert_invariants [OF Cons.prems, of x] Cons.IH show ?case by simp
qed

lemma strict_fold_invariants:
  assumes "height_balanced t"
  shows "height_balanced (fold strict_insert nodes t) \<and>
         node_count (fold strict_insert nodes t) \<le> node_count t + length nodes"
  using assms
proof (induction nodes arbitrary: t)
  case Nil
  then show ?case by simp
next
  case (Cons x nodes)
  have "height_balanced (strict_insert x t)"
    using strict_insert_balanced [OF Cons.prems] by simp
  from Cons.IH [OF this] node_count_strict_insert [of x t] show ?case by simp
qed

lemma path_head:
  "p \<in> set (color_paths t) \<Longrightarrow> red_root t = (\<exists>q. p = RED # q)"
  by (cases t) auto

lemma consecutive_red_Cons:
  "consecutive_red (c # p) = (c = RED \<and> (\<exists>q. p = RED # q) \<or> consecutive_red p)"
proof (cases c)
  case RED
  show ?thesis
  proof (cases p)
    case Nil
    with RED show ?thesis by simp
  next
    case (Cons d q)
    with RED show ?thesis by (cases d) simp_all
  qed
next
  case BLACK
  then show ?thesis by simp
qed

lemma red_free_paths:
  "red_free t \<Longrightarrow> p \<in> set (color_paths t) \<Longrightarrow> \<not> consecutive_red p"
proof (induction t arbitrary: p)
  case Empty
  then show ?case by simp
next
  case (Branch l n r)
  from Branch.prems(2) obtain q where p: "p = color n # q"
    and q: "q \<in> set (color_paths l) \<or> q \<in> set (color_paths r)"
    by auto
  from Branch.prems(1) have l: "red_free l" and r: "red_free r"
    and n: "color n = BLACK \<or> \<not> red_root l \<and> \<not> red_root r"
    by simp_all
  from q have "\<not> consecutive_red q"
    using Branch.IH l r by blast
  moreover have "\<not> (color n = RED \<and> (\<exists>q'. q = RED # q'))"
    using q n path_head [of q l] path_head [of q r] by auto
  ultimately show ?case by (simp add: p consecutive_red_Cons)
qed

lemma black_balanced_paths:
  "black_balanced t \<Longrightarrow> p \<in> set (color_paths t) \<Longrightarrow> black_count p = black_height t"
proof (induction t arbitrary: p)
  case Empty
  then show ?case by (simp add: black_count_def)
next
  case (Branch l n r)
  from Branch.prems(2) obtain q where p: "p = color n # q"
    and q: "q \<in> set (color_paths l) \<or> q \<in> set (color_paths r)"
    by auto
  from Branch.prems(1) have l: "black_balanced l" and r: "black_balanced r"
    and lr: "black_height l = black_height r"
    by simp_all
  from q have "black_count q = black_height l"
    using Branch.IH l r lr by auto
  then show ?case by (simp add: p black_count_def)
qed

lemma black_balanced_subtrees:
  "black_balanced t \<Longrightarrow> s \<in> set (subtrees t) \<Longrightarrow> black_balanced s"
  by (induction t) auto

lemma atlas_build_strict:
  "atlas_build TREE_MODE_AVL read_heavy nodes = fold strict_insert nodes Empty"
proof -
  have "atlas_insert TREE_MODE_AVL read_heavy = strict_insert"
    by (intro ext) (simp add: atlas_insert_def)
  then show ?thesis by (simp add: atlas_build_def)
qed

lemma atlas_build_relaxed:
  "atlas_build TREE_MODE_RB read_heavy nodes = fold relaxed_insert nodes Empty"
proof -
  have "atlas_insert TREE_MODE_RB read_heavy = relaxed_insert"
    by (intro ext) (simp add: atlas_insert_def)
  then show ?thesis by (simp add: atlas_build_def)
qed

lemma strict_build_height:
  "int (tree_height (atlas_build TREE_MODE_AVL read_heavy nodes)) \<le>
     \<lceil>1.442 * log 2 (real (length nodes) + 2)\<rceil>"
proof -
  define t where "t = fold strict_insert nodes Empty"
  have "height_balanced Empty" by simp
  from strict_fold_invariants [OF this, of nodes]
  have b: "height_balanced t" and n: "node_count t \<le> length nodes"
    by (simp_all add: t_def)
  from balanced_growth [OF b] n show ?thesis
    unfolding atlas_build_strict t_def [symmetric] by (rule height_bound)
qed

lemma relaxed_build_invariants:
  "red_free (atlas_build TREE_MODE_RB read_heavy nodes) \<and>
   black_balanced (atlas_build TREE_MODE_RB read_heavy nodes)"
  unfolding atlas_build_relaxed by (rule relaxed_fold_invariants) simp_all

lemma sample_key_order: "node_key (sample_node 2) < node_key (sample_node 3)"
  by (simp add: node_key_def sample_node_def less_prod_def)

lemma sample_relaxed_build:
  "atlas_build TREE_MODE_RB False [sample_node 2, sample_node 3] =
     Branch Empty ((sample_node 2)\<lparr> mode := TREE_MODE_RB, color := BLACK \<rparr>)
       (Branch Empty ((sample_node 3)\<lparr> mode := TREE_MODE_RB, color := RED \<rparr>) Empty)"
proof -
  have k: "node_key ((sample_node 2)\<lparr> mode := TREE_MODE_RB, color := BLACK \<rparr>) = node_key (sample_node 2)"
    by (simp add: node_key_def)
  have a: "\<not> node_key (sample_node 3) < node_key (sample_node 2)"
    using sample_key_order by (simp add: not_less less_imp_le)
  show ?thesis
    unfolding atlas_build_relaxed
    by (simp add: relaxed_insert_def k a sample_key_order relaxed_fix_right_def)
qed

text \<open>
  C9: after any sequence of \<open>N\<close> inserts in Strict mode the height of the tree is at
  most \<open>\<lceil>1.442 * log\<^sub>2 (N + 2)\<rceil>\<close>; after any sequence of inserts in Relaxed mode no
  path from the root to a leaf has two consecutive red nodes, and below every node all
  paths to the leaves have the same number of black nodes.
\<close>

theorem C9_discovery_tree_invariants:
  "int (tree_height (atlas_build TREE_MODE_AVL read_heavy nodes)) \<le>
     \<lceil>1.442 * log 2 (real (length nodes) + 2)\<rceil> \<and>
   (\<forall>p \<in> set (color_paths (atlas_build TREE_MODE_RB read_heavy nodes)). \<not> consecutive_red p) \<and>
   (\<forall>s \<in> set (subtrees (atlas_build TREE_MODE_RB read_heavy nodes)).
      \<forall>p \<in> set (color_paths s). \<forall>q \<in> set (color_paths s). black_count p = black_count q)"
proof -
  define t where "t = atlas_build TREE_MODE_RB read_heavy nodes"
  have rf: "red_free t" and bb: "black_balanced t"
    using relaxed_build_invariants [of read_heavy nodes] by (simp_all add: t_def)
  have "\<forall>p \<in> set (color_paths t). \<not> consecutive_red p"
    using red_free_paths [OF rf] by blast
  moreover have "\<forall>s \<in> set (subtrees t).
      \<forall>p \<in> set (color_paths s). \<forall>q \<in> set (color_paths s). black_count p = black_count q"
  proof (intro ballI)
    fix s p q
    assume "s \<in> set (subtrees t)"
    then have s: "black_balanced s" by (rule black_balanced_subtrees [OF bb])
    assume "p \<in> set (color_paths s)" "q \<in> set (color_paths s)"
    then show "black_count p = black_count q"
      using black_balanced_paths [OF s] by simp
  qed
  ultimately show ?thesis
    using strict_build_height [of read_heavy nodes] unfolding t_def by blast
qed

theorem C9_discovery_tree_witness:
  "[BLACK, RED] \<in> set (color_paths (atlas_build TREE_MODE_RB False [sample_node 2, sample_node 3])) \<and>
   [BLACK] \<in> set (color_paths (atlas_build TREE_MODE_RB False [sample_node 2, sample_node 3])) \<and>
   atlas_build TREE_MODE_RB False [sample_node 2, sample_node 3] \<in>
     set (subtrees (atlas_build TREE_MODE_RB False [sample_node 2, sample_node 3])) \<and>
   \<not> consecutive_red [BLACK, RED] \<and>
   black_count [BLACK, RED] = black_count [BLACK] \<and>
   int (tree_height (atlas_build TREE_MODE_AVL False [sample_node 2, sample_node 3])) \<le>
     \<lceil>1.442 * log 2 (real (length [sample_node 2, sample_node 3]) + 2)\<rceil>"
proof -
  define t where "t = atlas_build TREE_MODE_RB False [sample_node 2, sample_node 3]"
  have p: "[BLACK, RED] \<in> set (color_paths t)" and q: "[BLACK] \<in> set (color_paths t)"
    and s: "t \<in> set (subtrees t)"
    unfolding t_def sample_relaxed_build by simp_all
  note inst = C9_discovery_tree_invariants [of False "[sample_node 2, sample_node 3]",
      folded t_def]
  from inst p have "\<not> consecutive_red [BLACK, RED]" by blast
  moreover from inst s p q have "black_count [BLACK, RED] = black_count [BLACK]" by blast
  moreover note inst [THEN conjunct1]
  ultimately show ?thesis
    using p q s unfolding t_def by blast
qed

subsection \<open>The profile flags in reachable states\<close>

lemma zcr_loop_no_crossing:
  "num_samples \<le> length audio \<Longrightarrow> 1 \<le> i \<Longrightarrow> \<forall>k < num_samples. \<not> audio ! k > 0 \<Longrightarrow>
   zcr_loop audio num_samples i zcr = Inr zcr"
proof (induction audio num_samples i zcr rule: zcr_loop.induct)
  case (1 audio num_samples i zcr)
  show ?case
  proof (cases "i < num_samples")
    case True
    with "1.prems" have r: "rd audio i = Some (audio ! i)" "rd audio (i - 1) = Some (audio ! (i - 1))"
      by (simp_all add: rd_def)
    from "1.prems" True have s: "\<not> audio ! i > 0" "\<not> audio ! (i - 1) > 0"
      by simp_all
    from "1.IH" [OF True refl r(1) r(2)] "1.prems" True r s show ?thesis
      by (subst zcr_loop.simps) simp
  next
    case False
    then show ?thesis by (subst zcr_loop.simps) simp
  qed
qed

lemma detect_silence_1024:
  "obivox_detect_speech_variations (Some (replicate 1024 0)) 1024
     (Some (accessibility obivox_nlm_init)) (Some 0) =
   Some (Inr (accessibility obivox_nlm_init, Some 0.42))"
proof -
  have z: "zcr_loop (replicate 1024 0) 1024 1 0 = Inr 0"
    by (rule zcr_loop_no_crossing) simp_all
  have "u32 (int 1024 - 1024) = 0"
    by (simp add: u32_def)
  then have r: "repetition_loop (replicate 1024 0) (u32 (int 1024 - 1024)) 1024 0 = Some (Inr 0)"
    by (subst repetition_loop.simps) simp
  have n: "unat (1024 :: 32 word) = 1024" by simp
  show ?thesis
    unfolding obivox_detect_speech_variations_def n using z r
    by (simp add: obivox_nlm_init_def)
qed

lemma reachable_flags:
  "reachable sys \<Longrightarrow>
   lisp_mitigation (accessibility sys) \<and> stutter_detection (accessibility sys)"
proof (induction rule: reachable.induct)
  case init
  show ?case by (simp add: obivox_nlm_init_def)
next
  case (handle_drift sys drift b sys' cascade)
  then show ?case
    by (auto simp: obivox_handle_drift_def split: if_splits)
next
  case (drift_check sys)
  then show ?case
    by (auto simp: obivox_bidirectional_convert_drift_check_def obivox_handle_drift_def
        split: if_splits)
next
  case (detect sys audio num_samples v acc' score)
  with detect_keeps_flags [OF detect.hyps(2)] show ?case by simp
next
  case (map_to_nlm_space sys ft pos)
  then show ?case by simp
next
  case (incorporate_feedback sys fb sys')
  then show ?case
    by (auto simp: obivox_incorporate_feedback_def Let_def split: if_splits)
qed

text \<open>
  C10: a run of the detector that returns leaves a flag that was set still set; both
  flags are set by the initialisation and therefore in every reachable state; so in
  every reachable state the normaliser enters both passes whenever the preservation
  factor is below 1, whatever the detector has observed.
\<close>

theorem C10_flags_always_set:
  assumes "reachable sys"
  shows "lisp_mitigation (accessibility sys) \<and> stutter_detection (accessibility sys) \<and>
         (\<forall>audio num_samples v acc' score.
            obivox_detect_speech_variations (Some audio) num_samples
                (Some (accessibility sys)) (Some v) = Some (Inr (acc', score)) \<longrightarrow>
            lisp_mitigation acc' \<and> stutter_detection acc') \<and>
         (\<forall>audio num_samples f. f < 1 \<longrightarrow>
            obivox_apply_phonetic_normalization (Some audio) num_samples
                (Some (accessibility sys)) f =
              (case lisp_loop audio (unat num_samples) 0 f of
                 Inl e \<Rightarrow> Inl e
               | Inr a1 \<Rightarrow> smooth_loop a1 (u32 (int (unat num_samples) - 512)) 512 f))"
proof -
  note f = reachable_flags [OF assms]
  moreover have "lisp_mitigation acc' \<and> stutter_detection acc'"
    if "obivox_detect_speech_variations (Some audio) num_samples
          (Some (accessibility sys)) (Some v) = Some (Inr (acc', score))"
    for audio num_samples v acc' score
    using detect_keeps_flags [OF that] f by simp
  moreover have "obivox_apply_phonetic_normalization (Some audio) num_samples
                (Some (accessibility sys)) f =
              (case lisp_loop audio (unat num_samples) 0 f of
                 Inl e \<Rightarrow> Inl e
               | Inr a1 \<Rightarrow> smooth_loop a1 (u32 (int (unat num_samples) - 512)) 512 f)"
    if "f < 1" for audio num_samples f
    using that f by (simp add: obivox_apply_phonetic_normalization_def split: sum.splits)
  ultimately show ?thesis by blast
qed

theorem C10_flags_always_set_witness:
  "reachable obivox_nlm_init \<and>
   obivox_detect_speech_variations (Some (replicate 1024 0)) 1024
     (Some (accessibility obivox_nlm_init)) (Some 0) =
     Some (Inr (accessibility obivox_nlm_init, Some 0.42)) \<and>
   (0.7 :: real) < 1 \<and>
   lisp_mitigation (accessibility obivox_nlm_init) \<and>
   stutter_detection (accessibility obivox_nlm_init) \<and>
   obivox_apply_phonetic_normalization (Some (replicate 1024 0)) 1024
       (Some (accessibility obivox_nlm_init)) 0.7 =
     (case lisp_loop (replicate 1024 0) (unat (1024 :: 32 word)) 0 0.7 of
        Inl e \<Rightarrow> Inl e
      | Inr a1 \<Rightarrow> smooth_loop a1 (u32 (int (unat (1024 :: 32 word)) - 512)) 512 0.7)"
proof -
  have c: "(0.7 :: real) < 1" by simp
  from C10_flags_always_set [OF reachable.init] c detect_silence_1024 reachable.init
  show ?thesis by blast
qed

end
